theory Spec2Isabelle
  imports Main "HOL-Library.Word"
begin

section \<open>Bytes, C strings and the C library routines the sources call\<close>

text \<open>
  A buffer or a file is a list of bytes (\<open>string\<close>). A C string is the part of a buffer
  before the first NUL byte; \<open>cstr\<close> reads a buffer the way \<open>%s\<close>, \<open>strlen\<close>,
  \<open>strcpy\<close> and the loop of \<open>hash_content\<close> read it.
\<close>

abbreviation NUL :: char where "NUL \<equiv> CHR 0x00"
abbreviation LF :: char where "LF \<equiv> CHR 0x0A"
abbreviation CR :: char where "CR \<equiv> CHR 0x0D"

definition MAX_MESSAGE :: nat where [simp]: "MAX_MESSAGE = 256"
definition MAX_FILENAME :: nat where [simp]: "MAX_FILENAME = 256"
definition MAX_CONTENT :: nat where [simp]: "MAX_CONTENT = 10000"
definition MAX_LINE :: nat where [simp]: "MAX_LINE = 1024"
definition MAX_BRANCH_NAME :: nat where [simp]: "MAX_BRANCH_NAME = 50"

definition cstr :: "string \<Rightarrow> string" where
  "cstr buf = takeWhile (\<lambda>c. c \<noteq> NUL) buf"

text \<open>
  \<open>fgets(line, size, fp)\<close>: at most \<open>size - 1\<close> bytes, stopping after a line feed. The
  result is the bytes stored and the rest of the stream.
\<close>

fun fgets :: "nat \<Rightarrow> string \<Rightarrow> string \<times> string" where
  "fgets sz [] = ([], [])"
| "fgets sz (c # cs) =
     (if sz \<le> 1 then ([], c # cs)
      else if c = LF then ([c], cs)
      else (case fgets (sz - 1) cs of (l, rest) \<Rightarrow> (c # l, rest)))"

text \<open>
  \<open>while (fgets(line, sizeof(line), fp))\<close> with \<open>char line[MAX_LINE]\<close>: the buffers the
  loop body sees, in order, until the stream is exhausted.
\<close>

function fgets_lines :: "string \<Rightarrow> string list" where
  "fgets_lines [] = []"
| "fgets_lines (c # cs) =
     fst (fgets MAX_LINE (c # cs)) # fgets_lines (snd (fgets MAX_LINE (c # cs)))"
  by pat_completeness auto
termination
proof (relation "measure length")
  show "wf (measure length)" by simp
next
  fix c :: char and cs :: string
  have le: "length (snd (fgets n s)) \<le> length s" for n s
  proof (induction s arbitrary: n)
    case Nil
    show ?case by simp
  next
    case (Cons a as)
    from Cons [of "n - 1"] show ?case
      by (auto split: prod.splits)
  qed
  from le [of 1023 cs]
  show "(snd (fgets MAX_LINE (c # cs)), c # cs) \<in> measure length"
    by (auto split: prod.splits)
qed

text \<open>\<open>line[strcspn(line, "\n\r")] = '\0'\<close>\<close>

definition strcspn_cut :: "string \<Rightarrow> string" where
  "strcspn_cut line = takeWhile (\<lambda>c. c \<noteq> LF \<and> c \<noteq> CR) line"

text \<open>
  \<open>strtok(s, d)\<close> with a one-character delimiter set: skips leading delimiters; \<open>None\<close>
  (NULL) when nothing is left, otherwise the token and the position kept for
  \<open>strtok(NULL, d)\<close>.
\<close>

definition strtok :: "string \<Rightarrow> char \<Rightarrow> (string \<times> string) option" where
  "strtok s d =
     (let s' = dropWhile (\<lambda>c. c = d) s
      in if s' = [] then None
         else Some (takeWhile (\<lambda>c. c \<noteq> d) s', drop 1 (dropWhile (\<lambda>c. c \<noteq> d) s')))"

definition isspace :: "char \<Rightarrow> bool" where
  "isspace c = (c \<in> {CHR '' '', CHR 0x09, CHR 0x0A, CHR 0x0B, CHR 0x0C, CHR 0x0D})"

definition isdigit :: "char \<Rightarrow> bool" where
  "isdigit c = (of_char c \<ge> (48::nat) \<and> of_char c \<le> (57::nat))"

definition digit_val :: "char \<Rightarrow> nat" where
  "digit_val c = of_char c - 48"

definition digits_val :: "string \<Rightarrow> nat" where
  "digits_val ds = foldl (\<lambda>v c. 10 * v + digit_val c) 0 ds"

text \<open>
  The common front end of \<open>%d\<close>, \<open>atoi\<close> and \<open>strtoul\<close>: white space, an optional
  sign, then the longest run of decimal digits. The result is the sign and the digits,
  \<open>None\<close> when there is no digit.
\<close>

definition scan_number :: "string \<Rightarrow> (bool \<times> string) option" where
  "scan_number s =
     (let s1 = dropWhile isspace s;
          neg = (s1 \<noteq> [] \<and> hd s1 = CHR ''-'');
          s2 = (if s1 \<noteq> [] \<and> (hd s1 = CHR ''-'' \<or> hd s1 = CHR ''+'') then tl s1 else s1);
          ds = takeWhile isdigit s2
      in if ds = [] then None else Some (neg, ds))"

text \<open>
  C \<open>int\<close> values are modelled as unbounded integers: the sources never guard against
  signed overflow, and the properties below are stated for commit ids within the range
  of \<open>int\<close>.
\<close>

definition scan_int :: "string \<Rightarrow> int option" where
  "scan_int s =
     (case scan_number s of
        None \<Rightarrow> None
      | Some (neg, ds) \<Rightarrow> Some (if neg then - int (digits_val ds) else int (digits_val ds)))"

definition atoi :: "string \<Rightarrow> int" where
  "atoi s = (case scan_int s of None \<Rightarrow> 0 | Some v \<Rightarrow> v)"

text \<open>\<open>unsigned long\<close> on the LP64 targets the program is built for.\<close>

type_synonym ulong = "64 word"

text \<open>\<open>strtoul(s, NULL, 10)\<close>: 0 without digits, \<open>ULONG_MAX\<close> when out of range.\<close>

definition strtoul :: "string \<Rightarrow> ulong" where
  "strtoul s =
     (case scan_number s of
        None \<Rightarrow> 0
      | Some (neg, ds) \<Rightarrow>
          if digits_val ds \<ge> 2 ^ 64 then - 1
          else if neg then - word_of_nat (digits_val ds)
          else word_of_nat (digits_val ds))"

text \<open>\<open>sscanf(line, "COMMIT:%d", &id) == 1\<close>\<close>

definition sscanf_COMMIT :: "string \<Rightarrow> int option" where
  "sscanf_COMMIT line =
     (if take 7 line = ''COMMIT:'' then scan_int (drop 7 line) else None)"

text \<open>\<open>%lu\<close> and \<open>%d\<close> of \<open>printf\<close>.\<close>

fun show_nat :: "nat \<Rightarrow> string" where
  "show_nat n =
     (if n < 10 then [char_of (48 + n)]
      else show_nat (n div 10) @ [char_of (48 + n mod 10)])"

definition show_int :: "int \<Rightarrow> string" where
  "show_int i = (if i < 0 then CHR ''-'' # show_nat (nat (- i)) else show_nat (nat i))"

section \<open>The repository on disk\<close>

text \<open>
  The files the program touches. \<open>REFS_DIR b\<close> is \<open>.mygit/refs/b\<close> and
  \<open>OBJECTS_DIR h\<close> is \<open>.mygit/objects/h.blob\<close>, the two paths built with
  \<open>snprintf\<close>; \<open>WORK f\<close> is the working-directory file named on the command line,
  a file outside \<open>.mygit\<close>.
\<close>

datatype path =
    STAGING_FILE
  | COMMITS_FILE
  | HEAD_FILE
  | REFS_DIR string
  | OBJECTS_DIR ulong
  | WORK string

text \<open>
  \<open>files\<close> gives the content of each file that exists; \<open>writable\<close> says whether
  \<open>fopen\<close> in mode "w" or "a" succeeds on a path; \<open>written\<close> records every path
  opened for writing, most recent first.
\<close>

record fsys =
  files :: "path \<Rightarrow> string option"
  writable :: "path \<Rightarrow> bool"
  written :: "path list"

text \<open>A step that may store outside an array has no defined result: \<open>Fault\<close>.\<close>

datatype 'a exec = Fault | Done 'a

text \<open>
  \<open>fopen(p, "w")\<close> and \<open>fopen(p, "a")\<close> with the \<open>fprintf\<close> calls up to
  \<open>fclose\<close>: \<open>None\<close> when the file cannot be opened, otherwise the file holds
  the text printed, alone or after what it held before.
\<close>

definition fopen_w :: "path \<Rightarrow> string \<Rightarrow> fsys \<Rightarrow> fsys option" where
  "fopen_w p content fs =
     (if writable fs p
      then Some (fs\<lparr>files := (files fs)(p \<mapsto> content), written := p # written fs\<rparr>)
      else None)"

definition fopen_a :: "path \<Rightarrow> string \<Rightarrow> fsys \<Rightarrow> fsys option" where
  "fopen_a p content fs =
     (if writable fs p
      then Some (fs\<lparr>files := (files fs)(p \<mapsto> (case files fs p of None \<Rightarrow> [] | Some old \<Rightarrow> old) @ content),
                    written := p # written fs\<rparr>)
      else None)"

section \<open>utils.c\<close>

text \<open>
  \<open>hash_content\<close>: djb2 over the C string; \<open>c\<close> is an \<open>int\<close> loaded from a (signed)
  \<open>char\<close> and converted to \<open>unsigned long\<close> by the addition.
\<close>

definition char_to_ulong :: "char \<Rightarrow> ulong" where
  "char_to_ulong c = scast (word_of_nat (of_char c) :: 8 word)"

definition hash_content :: "string \<Rightarrow> ulong" where
  "hash_content content =
     foldl (\<lambda>hash c. (push_bit 5 hash + hash) + char_to_ulong c) 5381 (cstr content)"

definition file_exists :: "path \<Rightarrow> fsys \<Rightarrow> bool" where
  "file_exists p fs = (files fs p \<noteq> None)"

text \<open>\<open>read_file\<close>: \<open>None\<close> is the return value -1, otherwise the bytes put in the buffer.\<close>

definition read_file :: "path \<Rightarrow> nat \<Rightarrow> fsys \<Rightarrow> string option" where
  "read_file p max_size fs =
     (case files fs p of None \<Rightarrow> None | Some c \<Rightarrow> Some (take (max_size - 1) c))"

text \<open>\<open>write_file\<close>: \<open>None\<close> is the return value -1.\<close>

definition write_file :: "path \<Rightarrow> string \<Rightarrow> fsys \<Rightarrow> fsys option" where
  "write_file p content fs = fopen_w p (cstr content) fs"

text \<open>
  The body of the loop of \<open>get_next_commit_id\<close>:
  \<open>if (sscanf(line, "COMMIT:%d", &id) == 1) { if (id > max_id) max_id = id; }\<close>
\<close>

definition scan_max :: "int \<Rightarrow> string \<Rightarrow> int" where
  "scan_max max_id line =
     (case sscanf_COMMIT (cstr line) of
        Some i \<Rightarrow> if i > max_id then i else max_id
      | None \<Rightarrow> max_id)"

definition get_next_commit_id :: "fsys \<Rightarrow> int" where
  "get_next_commit_id fs =
     (case files fs COMMITS_FILE of
        None \<Rightarrow> 1
      | Some log \<Rightarrow> foldl scan_max 0 (fgets_lines log) + 1)"

definition get_current_branch :: "nat \<Rightarrow> fsys \<Rightarrow> string" where
  "get_current_branch sz fs =
     (let buffer = (case read_file HEAD_FILE sz fs of
                      None \<Rightarrow> ''main''
                    | Some b \<Rightarrow> cstr b)
      in if buffer \<noteq> [] \<and> last buffer = LF then butlast buffer else buffer)"

section \<open>add.c\<close>

text \<open>\<open>save_blob\<close>: \<open>None\<close> is the return value -1, \<open>Some\<close> the state after return 0.\<close>

definition save_blob :: "string \<Rightarrow> ulong \<Rightarrow> fsys \<Rightarrow> fsys option" where
  "save_blob content hash fs =
     (if file_exists (OBJECTS_DIR hash) fs then Some fs
      else write_file (OBJECTS_DIR hash) content fs)"

text \<open>The body of the loop of \<open>is_already_staged\<close>: does this line name the file?\<close>

definition staged_line_matches :: "string \<Rightarrow> string \<Rightarrow> bool" where
  "staged_line_matches filename buf =
     (let line = cstr buf in
      if line \<noteq> [] \<and> hd line = CHR ''#'' then False
      else let line = strcspn_cut line in
        if line = [] then False
        else (case strtok line (CHR ''|'') of
                None \<Rightarrow> False
              | Some (stored_filename, _) \<Rightarrow> stored_filename = filename))"

definition is_already_staged :: "string \<Rightarrow> fsys \<Rightarrow> bool" where
  "is_already_staged filename fs =
     (case files fs STAGING_FILE of
        None \<Rightarrow> False
      | Some s \<Rightarrow> list_ex (staged_line_matches filename) (fgets_lines s))"

text \<open>
  The test of \<open>remove_from_staging\<close>:
  \<open>!stored_name || strcmp(stored_name, filename) != 0\<close>.
\<close>

definition keeps_line :: "string \<Rightarrow> string \<Rightarrow> bool" where
  "keeps_line filename buf =
     (case strtok (strcspn_cut (cstr buf)) (CHR ''|'') of
        None \<Rightarrow> True
      | Some (stored_name, _) \<Rightarrow> stored_name \<noteq> filename)"

text \<open>
  The reading loop of \<open>remove_from_staging\<close> over \<open>char lines[100][MAX_LINE]\<close>:
  \<open>strcpy(lines[count], line); count++\<close> for every line kept. The array has 100 rows
  and the loop has no bound on \<open>count\<close>.
\<close>

fun remove_loop :: "string \<Rightarrow> string list \<Rightarrow> string list \<Rightarrow> string list exec" where
  "remove_loop filename [] lines = Done lines"
| "remove_loop filename (buf # rest) lines =
     (if keeps_line filename buf
      then (if length lines \<ge> 100 then Fault
            else remove_loop filename rest (lines @ [cstr buf]))
      else remove_loop filename rest lines)"

definition remove_from_staging :: "string \<Rightarrow> fsys \<Rightarrow> fsys exec" where
  "remove_from_staging filename fs =
     (case files fs STAGING_FILE of
        None \<Rightarrow> Done fs
      | Some s \<Rightarrow>
          (case remove_loop filename (fgets_lines s) [] of
             Fault \<Rightarrow> Fault
           | Done lines \<Rightarrow>
               (case fopen_w STAGING_FILE (concat lines) fs of
                  None \<Rightarrow> Done fs
                | Some fs' \<Rightarrow> Done fs')))"

text \<open>What each command prints, as far as it tells its outcomes apart.\<close>

datatype add_report =
    FileNotFound
  | CouldNotReadFile
  | FailedToSaveObject
  | CouldNotOpenStaging
  | Staged ulong

definition mygit_add :: "string \<Rightarrow> fsys \<Rightarrow> (int \<times> add_report \<times> fsys) exec" where
  "mygit_add filename fs =
     (if \<not> file_exists (WORK filename) fs then Done (- 1, FileNotFound, fs)
      else case read_file (WORK filename) MAX_CONTENT fs of
        None \<Rightarrow> Done (- 1, CouldNotReadFile, fs)
      | Some content \<Rightarrow>
          let hash = hash_content content in
          (case save_blob content hash fs of
             None \<Rightarrow> Done (- 1, FailedToSaveObject, fs)
           | Some fs1 \<Rightarrow>
               (case (if is_already_staged filename fs1
                      then remove_from_staging filename fs1 else Done fs1) of
                  Fault \<Rightarrow> Fault
                | Done fs2 \<Rightarrow>
                    (case fopen_a STAGING_FILE
                            (filename @ ''|'' @ show_nat (unat hash) @ [LF]) fs2 of
                       None \<Rightarrow> Done (- 1, CouldNotOpenStaging, fs2)
                     | Some fs3 \<Rightarrow> Done (0, Staged hash, fs3)))))"

section \<open>commit.c\<close>

text \<open>
  The \<open>Commit\<close> struct (\<open>cid\<close> is its field \<open>id\<close>). \<open>filenames\<close> and \<open>file_hashes\<close> are the first \<open>file_count\<close>
  rows of the two arrays of 10; the two list pointers are set to NULL and never used.
\<close>

record commit =
  cid :: int
  message :: string
  timestamp :: string
  branch :: string
  parent_id :: int
  file_count :: nat
  filenames :: "string list"
  file_hashes :: "ulong list"

text \<open>
  The test shared by \<open>count_staged_files\<close> and \<open>read_staged_files\<close>, after the line
  end is cut: \<open>line[0] == '#' || strlen(line) == 0\<close> skips the line.
\<close>

definition skipped_line :: "string \<Rightarrow> bool" where
  "skipped_line line = (line = [] \<or> hd line = CHR ''#'')"

definition count_staged_files :: "fsys \<Rightarrow> nat" where
  "count_staged_files fs =
     (case files fs STAGING_FILE of
        None \<Rightarrow> 0
      | Some s \<Rightarrow>
          length (filter (\<lambda>buf. \<not> skipped_line (strcspn_cut (cstr buf))) (fgets_lines s)))"

text \<open>The two \<open>strtok\<close> calls and \<open>strtoul\<close> of \<open>read_staged_files\<close> on one line.\<close>

definition split_entry :: "string \<Rightarrow> (string \<times> ulong) option" where
  "split_entry line =
     (case strtok line (CHR ''|'') of
        None \<Rightarrow> None
      | Some (filename, rest) \<Rightarrow>
          (case strtok rest (CHR ''|'') of
             None \<Rightarrow> None
           | Some (hash_str, _) \<Rightarrow> Some (filename, strtoul hash_str)))"

text \<open>
  The loop of \<open>read_staged_files\<close>. \<open>acc\<close> holds the rows filled so far
  (\<open>file_count\<close> is its length); the loop breaks at the first entry line met with 10
  rows filled; \<open>strcpy\<close> into a row of \<open>MAX_FILENAME\<close> bytes is a fault when the name
  does not fit.
\<close>

fun read_staged_loop :: "string list \<Rightarrow> (string \<times> ulong) list \<Rightarrow> (string \<times> ulong) list exec" where
  "read_staged_loop [] acc = Done acc"
| "read_staged_loop (buf # rest) acc =
     (let line = strcspn_cut (cstr buf) in
      if skipped_line line then read_staged_loop rest acc
      else if length acc \<ge> 10 then Done acc
      else (case split_entry line of
              None \<Rightarrow> read_staged_loop rest acc
            | Some (filename, hash) \<Rightarrow>
                if length filename \<ge> MAX_FILENAME then Fault
                else read_staged_loop rest (acc @ [(filename, hash)])))"

text \<open>\<open>read_staged_files\<close>: \<open>Done None\<close> is the return value -1.\<close>

definition read_staged_files :: "fsys \<Rightarrow> (string \<times> ulong) list option exec" where
  "read_staged_files fs =
     (case files fs STAGING_FILE of
        None \<Rightarrow> Done None
      | Some s \<Rightarrow>
          (case read_staged_loop (fgets_lines s) [] of
             Fault \<Rightarrow> Fault
           | Done acc \<Rightarrow> Done (Some acc)))"

definition get_last_commit_id_on_branch :: "string \<Rightarrow> fsys \<Rightarrow> int" where
  "get_last_commit_id_on_branch br fs =
     (case read_file (REFS_DIR br) 64 fs of
        None \<Rightarrow> 0
      | Some content \<Rightarrow> atoi (cstr content))"

text \<open>The comma-separated lists of \<open>save_commit\<close>.\<close>

fun comma_list :: "string list \<Rightarrow> string" where
  "comma_list [] = []"
| "comma_list [x] = x"
| "comma_list (x # y # ys) = x @ '','' @ comma_list (y # ys)"

definition commit_text :: "commit \<Rightarrow> string" where
  "commit_text c =
     ''COMMIT:'' @ show_int (cid c) @ [LF] @
     ''MSG:'' @ message c @ [LF] @
     ''TIME:'' @ timestamp c @ [LF] @
     ''BRANCH:'' @ branch c @ [LF] @
     ''PARENT:'' @ show_int (parent_id c) @ [LF] @
     ''FILES:'' @ comma_list (take (file_count c) (filenames c)) @ [LF] @
     ''HASHES:'' @ comma_list (map (\<lambda>h. show_nat (unat h)) (take (file_count c) (file_hashes c))) @ [LF] @
     ''END'' @ [LF]"

definition save_commit :: "commit \<Rightarrow> fsys \<Rightarrow> fsys option" where
  "save_commit c fs = fopen_a COMMITS_FILE (commit_text c) fs"

text \<open>\<open>update_branch_ref\<close> ignores the result of \<open>write_file\<close>.\<close>

definition update_branch_ref :: "string \<Rightarrow> int \<Rightarrow> fsys \<Rightarrow> fsys" where
  "update_branch_ref br commit_id fs =
     (case write_file (REFS_DIR br) (show_int commit_id) fs of
        None \<Rightarrow> fs
      | Some fs' \<Rightarrow> fs')"

definition clear_staging_area :: "fsys \<Rightarrow> fsys" where
  "clear_staging_area fs =
     (case fopen_w STAGING_FILE (''# MyGit Staging Area'' @ [LF]) fs of
        None \<Rightarrow> fs
      | Some fs' \<Rightarrow> fs')"

datatype commit_report =
    NothingToCommit
  | FailedToReadStaging
  | FailedToSaveCommit
  | CommitSuccessful commit

text \<open>
  \<open>mygit_commit\<close>. \<open>now\<close> is the string \<open>get_timestamp\<close> puts in the buffer (the clock
  is outside the program).
\<close>

definition mygit_commit :: "string \<Rightarrow> string \<Rightarrow> fsys \<Rightarrow> (int \<times> commit_report \<times> fsys) exec" where
  "mygit_commit msg now fs =
     (if count_staged_files fs = 0 then Done (- 1, NothingToCommit, fs)
      else
        let new_id = get_next_commit_id fs;
            br = get_current_branch MAX_BRANCH_NAME fs;
            last_id = get_last_commit_id_on_branch br fs
        in (case read_staged_files fs of
              Fault \<Rightarrow> Fault
            | Done None \<Rightarrow> Done (- 1, FailedToReadStaging, fs)
            | Done (Some entries) \<Rightarrow>
                let new_commit =
                      \<lparr>cid = new_id,
                       message = take (MAX_MESSAGE - 1) (cstr msg),
                       timestamp = now,
                       branch = br,
                       parent_id = (if last_id = 0 then - 1 else last_id),
                       file_count = length entries,
                       filenames = map fst entries,
                       file_hashes = map snd entries\<rparr>
                in (case save_commit new_commit fs of
                      None \<Rightarrow> Done (- 1, FailedToSaveCommit, fs)
                    | Some fs1 \<Rightarrow>
                        Done (0, CommitSuccessful new_commit,
                              clear_staging_area (update_branch_ref br new_id fs1)))))"

section \<open>init.c\<close>

text \<open>
  The files \<open>mygit_init\<close> leaves behind when every step of it succeeds, in a file
  system where every path can be written.
\<close>

definition mygit_init_files :: "path \<Rightarrow> string option" where
  "mygit_init_files =
     (\<lambda>p. None)
       (HEAD_FILE \<mapsto> ''main'',
        COMMITS_FILE \<mapsto> ''# MyGit Commit History'' @ [LF],
        STAGING_FILE \<mapsto> ''# MyGit Staging Area'' @ [LF],
        REFS_DIR ''main'' \<mapsto> ''0'')"

definition initialized :: fsys where
  "initialized = \<lparr>files = mygit_init_files, writable = (\<lambda>p. True), written = []\<rparr>"

section \<open>Reading the staging file\<close>

text \<open>The buffers the reading loops see, none for a missing file.\<close>

definition staging_lines :: "fsys \<Rightarrow> string list" where
  "staging_lines fs = (case files fs STAGING_FILE of None \<Rightarrow> [] | Some s \<Rightarrow> fgets_lines s)"

text \<open>
  What one pass of the loop of \<open>read_staged_files\<close> makes of a buffer, the bound of
  10 rows aside: nothing for a skipped line or a line without two fields, otherwise the
  file name and the hash it stores.
\<close>

definition entry_of_line :: "string \<Rightarrow> (string \<times> ulong) option" where
  "entry_of_line buf =
     (let line = strcspn_cut (cstr buf)
      in if skipped_line line then None else split_entry line)"

definition staged_entries :: "fsys \<Rightarrow> (string \<times> ulong) list" where
  "staged_entries fs = List.map_filter entry_of_line (staging_lines fs)"

text \<open>
  A buffer that \<open>fgets\<close> returns whole whatever follows it: a line of at most 1023
  bytes with its line feed, or 1023 bytes without one.
\<close>

definition full_line :: "string \<Rightarrow> bool" where
  "full_line l =
     (l \<noteq> [] \<and> LF \<notin> set (butlast l) \<and>
      (if last l = LF then length l \<le> MAX_LINE - 1 else length l = MAX_LINE - 1))"

text \<open>
  A staging file as the program itself writes it: text without NUL bytes, empty or
  ending in a line feed.
\<close>

definition staging_ok :: "fsys \<Rightarrow> bool" where
  "staging_ok fs =
     (case files fs STAGING_FILE of
        None \<Rightarrow> True
      | Some s \<Rightarrow> NUL \<notin> set s \<and> (s = [] \<or> last s = LF))"

text \<open>
  A staging file in which every line that \<open>count_staged_files\<close> counts, a line
  that is neither a comment nor empty, is a line that \<open>read_staged_files\<close> makes an
  entry of.
\<close>

definition entries_only :: "fsys \<Rightarrow> bool" where
  "entries_only fs =
     list_all (\<lambda>buf. skipped_line (strcspn_cut (cstr buf)) \<or> entry_of_line buf \<noteq> None)
       (staging_lines fs)"

text \<open>
  A file name that the line format \<open>name|hash\<close> can hold: a non-empty C string
  without the separator or a line end, not starting like a comment, short enough for
  its line to fit the line buffer.
\<close>

definition name_ok :: "string \<Rightarrow> bool" where
  "name_ok f =
     (f \<noteq> [] \<and> hd f \<noteq> CHR ''#'' \<and> NUL \<notin> set f \<and> LF \<notin> set f \<and> CR \<notin> set f \<and>
      CHR ''|'' \<notin> set f \<and> length f \<le> 1000)"

text \<open>The line \<open>mygit_add\<close> appends for a file and its hash.\<close>

definition staging_line :: "string \<Rightarrow> ulong \<Rightarrow> string" where
  "staging_line f h = f @ ''|'' @ show_nat (unat h) @ [LF]"

section \<open>Runs of commands\<close>

text \<open>
  A sequence of \<open>mygit add\<close> commands, each on the state the one before left;
  \<open>None\<close> when one of them does not return 0.
\<close>

fun stage_all :: "string list \<Rightarrow> fsys \<Rightarrow> fsys option" where
  "stage_all [] fs = Some fs"
| "stage_all (f # rest) fs =
     (case mygit_add f fs of
        Fault \<Rightarrow> None
      | Done (rc, rep, fs') \<Rightarrow> if rc = 0 then stage_all rest fs' else None)"

text \<open>The commit a successful \<open>mygit_commit\<close> reports.\<close>

definition committed :: "(int \<times> commit_report \<times> fsys) exec \<Rightarrow> commit option" where
  "committed r =
     (case r of
        Done (rc, CommitSuccessful c, fs') \<Rightarrow> if rc = 0 then Some c else None
      | _ \<Rightarrow> None)"


text \<open>
  A commit log as the program itself writes it: empty or ending in a line feed.
\<close>

definition log_ok :: "fsys \<Rightarrow> bool" where
  "log_ok fs =
     (case files fs COMMITS_FILE of
        None \<Rightarrow> True
      | Some log \<Rightarrow> log = [] \<or> last log = LF)"


text \<open>
  A round whose record keeps to the lines of the log: no line feed in the message or the
  time stamp, the time stamp fits its buffer of 64 bytes, and the \<open>FILES\<close> line fits
  the line buffer of the reader.
\<close>

definition round_ok :: "string \<times> string \<times> string \<Rightarrow> bool" where
  "round_ok r =
     (case r of (stg, msg, now) \<Rightarrow>
        LF \<notin> set msg \<and> LF \<notin> set now \<and> length now < 64 \<and>
        length (comma_list (map fst (take 10 (List.map_filter entry_of_line (fgets_lines stg)))))
          \<le> 1000)"

section \<open>Example repositories\<close>

text \<open>An initialized repository beside two working files.\<close>

definition two_files :: fsys where
  "two_files =
     initialized\<lparr>files := mygit_init_files(WORK ''a'' \<mapsto> ''hello'', WORK ''b'' \<mapsto> ''world'')\<rparr>"



text \<open>
  An initialized repository with two staged entries, beside the working file of the
  first.
\<close>

definition two_staged :: fsys where
  "two_staged =
     initialized\<lparr>files := mygit_init_files
       (STAGING_FILE \<mapsto> ''# MyGit Staging Area'' @ [LF] @ ''a|1'' @ [LF] @ ''b|2'' @ [LF],
        WORK ''a'' \<mapsto> ''hello'')\<rparr>"

text \<open>An initialized repository with one staged entry.\<close>

definition one_staged :: fsys where
  "one_staged =
     initialized\<lparr>files := mygit_init_files
       (STAGING_FILE \<mapsto> ''# MyGit Staging Area'' @ [LF] @ ''a|1'' @ [LF])\<rparr>"

text \<open>An initialized repository with eleven staged entries.\<close>

definition eleven_staged :: fsys where
  "eleven_staged =
     initialized\<lparr>files := mygit_init_files
       (STAGING_FILE \<mapsto> ''# MyGit Staging Area'' @ [LF] @
          ''a|1'' @ [LF] @ ''b|2'' @ [LF] @ ''c|3'' @ [LF] @ ''d|4'' @ [LF] @
          ''e|5'' @ [LF] @ ''f|6'' @ [LF] @ ''g|7'' @ [LF] @ ''h|8'' @ [LF] @
          ''i|9'' @ [LF] @ ''j|10'' @ [LF] @ ''k|11'' @ [LF])\<rparr>"


text \<open>
  A repository whose staging file is the one \<open>mygit add\<close> leaves after staging a
  hundred empty files named \<open>0\<close> to \<open>99\<close> and a file \<open>b\<close>: the header line and
  101 entries.
\<close>

definition crowded :: fsys where
  "crowded =
     initialized\<lparr>files := mygit_init_files
       (STAGING_FILE \<mapsto> concat ((''# MyGit Staging Area'' @ [LF]) #
                                   map (\<lambda>i. staging_line (show_nat i) 5381) [0..<100]) @
                         staging_line ''b'' 210714636441,
        WORK ''b'' \<mapsto> ''hello'')\<rparr>"

text \<open>A repository without a staging file, beside a working file.\<close>

definition no_staging :: fsys where
  "no_staging =
     initialized\<lparr>files := mygit_init_files(STAGING_FILE := None, WORK ''a'' \<mapsto> ''hello'')\<rparr>"

section \<open>Printing and scanning numbers\<close>

declare show_nat.simps [simp del]

lemma isdigit_char_of: "k < 10 \<Longrightarrow> isdigit (char_of (48 + k :: nat))"
  by (simp add: isdigit_def of_char_of)

lemma digit_val_char_of: "k < 10 \<Longrightarrow> digit_val (char_of (48 + k :: nat)) = k"
  by (simp add: digit_val_def of_char_of)

lemma show_nat_digits: "c \<in> set (show_nat n) \<Longrightarrow> isdigit c"
proof (induction n arbitrary: c rule: show_nat.induct)
  case (1 n)
  show ?case
  proof (cases "n < 10")
    case True
    with "1.prems" show ?thesis
      by (simp add: show_nat.simps [of n] isdigit_char_of)
  next
    case False
    with "1.prems" "1.IH" show ?thesis
      by (auto simp: show_nat.simps [of n] isdigit_char_of)
  qed
qed

lemma show_nat_nonempty: "show_nat n \<noteq> []"
  by (subst show_nat.simps) simp

lemma digits_val_snoc: "digits_val (ds @ [c]) = 10 * digits_val ds + digit_val c"
  by (simp add: digits_val_def)

lemma digits_val_show_nat: "digits_val (show_nat n) = n"
proof (induction n rule: show_nat.induct)
  case (1 n)
  show ?case
  proof (cases "n < 10")
    case True
    then show ?thesis
      by (simp add: show_nat.simps [of n] digits_val_def digit_val_char_of)
  next
    case False
    with "1.IH" show ?thesis
      by (simp add: show_nat.simps [of n] digits_val_snoc digit_val_char_of)
  qed
qed

lemma length_show_nat: "0 < k \<Longrightarrow> n < 10 ^ k \<Longrightarrow> length (show_nat n) \<le> k"
proof (induction n arbitrary: k rule: show_nat.induct)
  case (1 n)
  show ?case
  proof (cases "n < 10")
    case True
    with "1.prems" show ?thesis
      by (simp add: show_nat.simps [of n])
  next
    case False
    with "1.prems" have k: "1 < k"
      by (cases "k = 1") auto
    then obtain j where j: "k = Suc j" "0 < j"
      by (cases k) auto
    from "1.prems" j have "n div 10 < 10 ^ j"
      by (simp add: less_mult_imp_div_less mult.commute)
    with "1.IH" [OF False, of j] j have "length (show_nat (n div 10)) \<le> j"
      by simp
    with False j show ?thesis
      by (simp add: show_nat.simps [of n])
  qed
qed

lemma not_isdigit_simps:
  "\<not> isdigit LF" "\<not> isdigit (CHR ''|'')" "\<not> isdigit (CHR '','')" "\<not> isdigit (CHR ''-'')"
  "\<not> isdigit (CHR ''+'')" "\<not> isdigit NUL" "\<not> isdigit CR" "\<not> isdigit (CHR ''#'')"
  by (simp_all add: isdigit_def)

lemma isdigit_not_space: "isdigit c \<Longrightarrow> \<not> isspace c"
  by (auto simp: isdigit_def isspace_def)

lemma takeWhile_digits:
  assumes "\<forall>c\<in>set ds. isdigit c" and "rest = [] \<or> \<not> isdigit (hd rest)"
  shows "takeWhile isdigit (ds @ rest) = ds"
  using assms by (cases rest) (auto simp: takeWhile_append)

lemma scan_number_digits:
  assumes "ds \<noteq> []" and "\<forall>c\<in>set ds. isdigit c" and "rest = [] \<or> \<not> isdigit (hd rest)"
  shows "scan_number (ds @ rest) = Some (False, ds)"
proof -
  from assms obtain d ds' where ds: "ds = d # ds'" and d: "isdigit d"
    by (cases ds) auto
  from d have "\<not> isspace d" "d \<noteq> CHR ''-''" "d \<noteq> CHR ''+''"
    using isdigit_not_space not_isdigit_simps by auto
  moreover have "takeWhile isdigit (ds @ rest) = ds"
    using assms by (intro takeWhile_digits) auto
  ultimately show ?thesis
    using assms(1) by (simp add: scan_number_def ds Let_def)
qed




lemma strtoul_show_nat: "strtoul (show_nat (unat (h :: ulong))) = h"
proof -
  have "unat h < 2 ^ 64"
    using unsigned_less [of h] by simp
  then show ?thesis
    using scan_number_digits [OF show_nat_nonempty, of "unat h" "[]"]
    by (simp add: strtoul_def show_nat_digits digits_val_show_nat)
qed

lemma length_show_ulong: "length (show_nat (unat (h :: ulong))) \<le> 20"
proof -
  have "unat h < 2 ^ 64"
    using unsigned_less [of h] by simp
  then have "unat h < 10 ^ 20" by simp
  then show ?thesis by (intro length_show_nat) simp
qed

section \<open>The buffers of a reading loop\<close>

lemma fgets_line:
  "LF \<notin> set b \<Longrightarrow> length b + 2 \<le> n \<Longrightarrow> fgets n (b @ LF # rest) = (b @ [LF], rest)"
  by (induction b arbitrary: n) auto

lemma fgets_block:
  "LF \<notin> set l \<Longrightarrow> length l + 1 = n \<Longrightarrow> fgets n (l @ rest) = (l, rest)"
proof (induction l arbitrary: n)
  case Nil
  then show ?case by (cases rest) auto
next
  case (Cons a l)
  from Cons.prems Cons.IH [of "n - 1"] show ?case by auto
qed

lemma fgets_full:
  assumes "full_line l"
  shows "fgets MAX_LINE (l @ rest) = (l, rest)"
proof (cases "last l = LF")
  case True
  with assms have l: "l = butlast l @ [LF]" "LF \<notin> set (butlast l)" "length (butlast l) + 2 \<le> MAX_LINE"
    by (auto simp: full_line_def dest: append_butlast_last_id)
  from fgets_line [OF l(2) l(3), of rest] l(1) show ?thesis
    by (metis append.assoc append_Cons append_Nil)
next
  case False
  with assms have "length l + 1 = MAX_LINE" and "LF \<notin> set l"
    by (auto simp: full_line_def dest: in_set_butlastD split: if_splits)
       (metis append_butlast_last_id in_set_butlast_appendI insert_iff list.simps(15) rotate1.simps(2) set_ConsD set_rotate1)
  then show ?thesis by (intro fgets_block) auto
qed

lemma fgets_lines_full_append:
  assumes "full_line l"
  shows "fgets_lines (l @ rest) = l # fgets_lines rest"
proof -
  from assms obtain c cs where "l @ rest = c # cs"
    by (cases l) (auto simp: full_line_def)
  with fgets_full [OF assms, of rest] show ?thesis
    by (metis fgets_lines.simps(2) fst_conv snd_conv)
qed

lemma fgets_lines_concat:
  "\<forall>l\<in>set ls. full_line l \<Longrightarrow> fgets_lines (concat ls @ rest) = ls @ fgets_lines rest"
  by (induction ls) (auto simp: fgets_lines_full_append)

lemma fgets_split: "fgets n s = (l, rest) \<Longrightarrow> s = l @ rest"
proof (induction s arbitrary: n l rest)
  case Nil
  then show ?case by simp
next
  case (Cons c cs)
  then show ?case
    by (auto split: if_splits prod.splits)
qed

lemma fgets_shape:
  assumes "1 < n" and "s \<noteq> []" and "fgets n s = (l, rest)"
  shows "l \<noteq> [] \<and> LF \<notin> set (butlast l) \<and> length l \<le> n - 1 \<and>
         (last l = LF \<or> length l = n - 1 \<or> rest = [])"
  using assms
proof (induction s arbitrary: n l rest)
  case Nil
  then show ?case by simp
next
  case (Cons c cs)
  show ?case
  proof (cases "c = LF")
    case True
    with Cons.prems show ?thesis by auto
  next
    case False
    obtain l' where l': "fgets (n - 1) cs = (l', rest)" "l = c # l'"
      using Cons.prems False by (auto split: prod.splits)
    show ?thesis
    proof (cases "cs = [] \<or> n = 2")
      case True
      with l' Cons.prems(1) show ?thesis
        by (cases cs) (auto simp: False)
    next
      case False
      with Cons.prems(1) have "1 < n - 1" "cs \<noteq> []" by auto
      from Cons.IH [OF this l'(1)] l'(2) \<open>c \<noteq> LF\<close> Cons.prems(1) show ?thesis
        by auto
    qed
  qed
qed

lemma fgets_lines_all_full:
  "s = [] \<or> last s = LF \<Longrightarrow> l \<in> set (fgets_lines s) \<Longrightarrow> full_line l"
proof (induction s arbitrary: l rule: fgets_lines.induct)
  case 1
  then show ?case by simp
next
  case (2 c cs)
  obtain l0 rest where f: "fgets MAX_LINE (c # cs) = (l0, rest)"
    by (cases "fgets MAX_LINE (c # cs)")
  from fgets_split [OF f] have s: "c # cs = l0 @ rest" .
  from fgets_shape [OF _ _ f] have sh: "l0 \<noteq> []" "LF \<notin> set (butlast l0)" "length l0 \<le> 1023"
    "last l0 = LF \<or> length l0 = 1023 \<or> rest = []"
    by auto
  from "2.prems"(1) have "last (c # cs) = LF" by simp
  then have lst: "last (l0 @ rest) = LF" by (simp only: s)
  have full0: "full_line l0"
  proof (cases "rest = []")
    case True
    with lst sh show ?thesis by (simp add: full_line_def)
  next
    case False
    with sh show ?thesis by (auto simp: full_line_def)
  qed
  have "rest = [] \<or> last rest = LF"
    using lst by (cases "rest = []") auto
  with "2.IH" f have "\<And>x. x \<in> set (fgets_lines rest) \<Longrightarrow> full_line x"
    by simp
  with "2.prems"(2) f full0 show ?case by auto
qed

lemma concat_fgets_lines: "concat (fgets_lines s) = s"
proof (induction s rule: fgets_lines.induct)
  case 1
  show ?case by simp
next
  case (2 c cs)
  obtain l0 rest where f: "fgets MAX_LINE (c # cs) = (l0, rest)"
    by (cases "fgets MAX_LINE (c # cs)")
  have "fgets_lines (c # cs) = l0 # fgets_lines rest"
    using f by simp
  moreover have "concat (fgets_lines rest) = rest"
    using "2.IH" f by simp
  ultimately show ?case
    using fgets_split [OF f] by simp
qed

lemma fgets_lines_snoc:
  assumes "s = [] \<or> last s = LF" and "full_line nl"
  shows "fgets_lines (s @ nl) = fgets_lines s @ [nl]"
proof -
  have "fgets_lines (concat (fgets_lines s) @ nl) = fgets_lines s @ fgets_lines nl"
    using fgets_lines_all_full [OF assms(1)] by (intro fgets_lines_concat) blast
  moreover have "fgets_lines nl = [nl]"
    using fgets_lines_full_append [OF assms(2), of "[]"] by simp
  ultimately show ?thesis by (simp add: concat_fgets_lines)
qed

lemma cstr_id: "NUL \<notin> set l \<Longrightarrow> cstr l = l"
  by (auto simp: cstr_def takeWhile_eq_all_conv)

lemma fgets_lines_subset: "l \<in> set (fgets_lines s) \<Longrightarrow> set l \<subseteq> set s"
  using concat_fgets_lines [of s] by (metis Sup_upper image_eqI set_concat)

lemma remove_loop_Done:
  "remove_loop f ls acc = Done r \<Longrightarrow> r = acc @ map cstr (filter (keeps_line f) ls)"
proof (induction ls arbitrary: acc)
  case Nil
  then show ?case by simp
next
  case (Cons a ls)
  from Cons.prems Cons.IH [of "acc @ [cstr a]"] Cons.IH [of acc] show ?case
    by (auto split: if_splits)
qed

lemma remove_loop_fits:
  "length acc + length (filter (keeps_line f) ls) \<le> 100 \<Longrightarrow>
   remove_loop f ls acc = Done (acc @ map cstr (filter (keeps_line f) ls))"
  by (induction ls arbitrary: acc) auto

lemma remove_loop_overflow:
  "length acc \<le> 100 \<Longrightarrow> 100 < length acc + length (filter (keeps_line f) ls) \<Longrightarrow>
   remove_loop f ls acc = Fault"
  by (induction ls arbitrary: acc) auto

section \<open>Lines of the staging file\<close>

lemma strcspn_cut_line:
  "LF \<notin> set b \<Longrightarrow> CR \<notin> set b \<Longrightarrow> strcspn_cut (b @ [LF]) = b"
  by (auto simp: strcspn_cut_def takeWhile_append takeWhile_eq_all_conv)

lemma strtok_field:
  "a \<noteq> [] \<Longrightarrow> d \<notin> set a \<Longrightarrow> strtok (a @ d # rest) d = Some (a, rest)"
  by (cases a) (auto simp: strtok_def takeWhile_append dropWhile_append takeWhile_eq_all_conv
      dropWhile_eq_Nil_conv)

lemma strtok_last_field:
  assumes "a \<noteq> []" and "d \<notin> set a"
  shows "strtok a d = Some (a, [])"
proof -
  have 1: "dropWhile (\<lambda>c. c = d) a = a"
    using assms by (cases a) auto
  have 2: "takeWhile (\<lambda>c. c \<noteq> d) a = a"
    using assms by (auto simp: takeWhile_eq_all_conv)
  have 3: "dropWhile (\<lambda>c. c \<noteq> d) a = []"
    using assms by (auto simp: dropWhile_eq_Nil_conv)
  show ?thesis
    using assms by (simp add: strtok_def 1 2 3)
qed

lemma show_nat_no_char:
  "\<not> isdigit c \<Longrightarrow> c \<notin> set (show_nat n)"
  using show_nat_digits by blast

lemma staging_line_body:
  assumes "name_ok f"
  shows "strcspn_cut (cstr (staging_line f h)) = f @ CHR ''|'' # show_nat (unat h)"
proof -
  have nul: "NUL \<notin> set (staging_line f h)"
    using assms show_nat_no_char [of NUL "unat h"]
    by (auto simp: staging_line_def name_ok_def not_isdigit_simps)
  have "LF \<notin> set (f @ CHR ''|'' # show_nat (unat h))" "CR \<notin> set (f @ CHR ''|'' # show_nat (unat h))"
    using assms show_nat_no_char [of LF "unat h"] show_nat_no_char [of CR "unat h"]
    by (auto simp: name_ok_def not_isdigit_simps)
  from strcspn_cut_line [OF this] show ?thesis
    by (simp add: cstr_id [OF nul]) (simp add: staging_line_def)
qed

lemma split_entry_staging_line:
  assumes "name_ok f"
  shows "split_entry (f @ CHR ''|'' # show_nat (unat h)) = Some (f, h)"
proof -
  from assms have f: "f \<noteq> []" "CHR ''|'' \<notin> set f"
    by (auto simp: name_ok_def)
  have d: "show_nat (unat h) \<noteq> []" "CHR ''|'' \<notin> set (show_nat (unat h))"
    using show_nat_nonempty show_nat_no_char [of "CHR ''|''" "unat h"]
    by (auto simp: not_isdigit_simps)
  show ?thesis
    using strtok_field [OF f, of "show_nat (unat h)"] strtok_last_field [OF d]
    by (simp add: split_entry_def strtoul_show_nat)
qed

lemma entry_of_staging_line:
  assumes "name_ok f"
  shows "entry_of_line (staging_line f h) = Some (f, h)"
proof -
  from assms have "\<not> skipped_line (f @ CHR ''|'' # show_nat (unat h))"
    by (cases f) (auto simp: skipped_line_def name_ok_def)
  then show ?thesis
    by (simp add: entry_of_line_def staging_line_body [OF assms] split_entry_staging_line [OF assms])
qed

lemma keeps_staging_line:
  assumes "name_ok f"
  shows "\<not> keeps_line f (staging_line f h)"
proof -
  from assms have f: "f \<noteq> []" "CHR ''|'' \<notin> set f"
    by (auto simp: name_ok_def)
  show ?thesis
    using strtok_field [OF f, of "show_nat (unat h)"]
    by (simp add: keeps_line_def staging_line_body [OF assms])
qed

lemma full_staging_line:
  assumes "name_ok f"
  shows "full_line (staging_line f h)"
proof -
  have "LF \<notin> set (f @ CHR ''|'' # show_nat (unat h))"
    using assms show_nat_no_char [of LF "unat h"]
    by (auto simp: name_ok_def not_isdigit_simps)
  moreover have "length (f @ CHR ''|'' # show_nat (unat h)) \<le> 1021"
    using assms length_show_ulong [of h] by (simp add: name_ok_def)
  moreover have "staging_line f h = (f @ CHR ''|'' # show_nat (unat h)) @ [LF]"
    by (simp add: staging_line_def)
  ultimately show ?thesis
    by (simp add: full_line_def del: append_assoc)
qed

lemma staging_line_no_NUL:
  assumes "name_ok f"
  shows "NUL \<notin> set (staging_line f h)"
  using assms show_nat_no_char [of NUL "unat h"]
  by (auto simp: staging_line_def name_ok_def not_isdigit_simps)

lemma entry_keeps:
  "entry_of_line l = Some (fn, h) \<Longrightarrow> keeps_line f l = (fn \<noteq> f)"
  by (auto simp: entry_of_line_def keeps_line_def split_entry_def Let_def
      split: if_splits option.splits)

lemma matches_iff_not_keeps:
  assumes "f \<noteq> []" and "hd f \<noteq> CHR ''#''"
  shows "staged_line_matches f l = (\<not> keeps_line f l)"
proof (cases "cstr l \<noteq> [] \<and> hd (cstr l) = CHR ''#''")
  case True
  then obtain r where r: "cstr l = CHR ''#'' # r" by (cases "cstr l") auto
  then have "strtok (strcspn_cut (cstr l)) (CHR ''|'') =
      Some (CHR ''#'' # takeWhile (\<lambda>c. c \<noteq> CHR ''|'') (takeWhile (\<lambda>c. c \<noteq> LF \<and> c \<noteq> CR) r),
            drop 1 (dropWhile (\<lambda>c. c \<noteq> CHR ''|'') (CHR ''#'' # takeWhile (\<lambda>c. c \<noteq> LF \<and> c \<noteq> CR) r)))"
    by (simp add: strtok_def strcspn_cut_def)
  with assms True show ?thesis
    by (cases f) (auto simp: staged_line_matches_def keeps_line_def)
next
  case False
  then show ?thesis
    by (auto simp: staged_line_matches_def keeps_line_def strtok_def Let_def split: option.splits)
qed

lemma entries_of_kept:
  "List.map_filter entry_of_line (filter (keeps_line f) ls) =
   filter (\<lambda>e. fst e \<noteq> f) (List.map_filter entry_of_line ls)"
proof (induction ls)
  case Nil
  show ?case by (simp add: List.map_filter_simps)
next
  case (Cons l ls)
  show ?case
  proof (cases "entry_of_line l")
    case None
    with Cons show ?thesis by (simp add: List.map_filter_simps)
  next
    case (Some e)
    obtain fn h where e: "e = (fn, h)" by (cases e)
    from entry_keeps [of l fn h f] Some e Cons show ?thesis
      by (simp add: List.map_filter_simps)
  qed
qed

lemma map_filter_append:
  "List.map_filter g (xs @ ys) = List.map_filter g xs @ List.map_filter g ys"
  by (simp add: List.map_filter_def)

section \<open>What \<open>mygit_add\<close> leaves in the staging file\<close>

lemma save_blob_frame:
  assumes "save_blob content h fs = Some fs1"
  shows "files fs1 STAGING_FILE = files fs STAGING_FILE"
    and "writable fs1 = writable fs"
    and "p \<noteq> OBJECTS_DIR h \<Longrightarrow> files fs1 p = files fs p"
  using assms
  by (auto simp: save_blob_def write_file_def fopen_w_def split: if_splits)

lemma is_already_staged_lines:
  "is_already_staged f fs = list_ex (staged_line_matches f) (staging_lines fs)"
  by (simp add: is_already_staged_def staging_lines_def split: option.splits)

lemma filter_keeps_unstaged:
  assumes "f \<noteq> []" and "hd f \<noteq> CHR ''#''" and "\<not> list_ex (staged_line_matches f) ls"
  shows "filter (keeps_line f) ls = ls"
  using assms by (auto simp: list_ex_iff matches_iff_not_keeps filter_id_conv)

lemma kept_lines_text:
  assumes "NUL \<notin> set s" and "s = [] \<or> last s = LF"
  shows "map cstr (filter (keeps_line f) (fgets_lines s)) = filter (keeps_line f) (fgets_lines s)"
    and "\<forall>l\<in>set (filter (keeps_line f) (fgets_lines s)). full_line l"
    and "NUL \<notin> set (concat (filter (keeps_line f) (fgets_lines s)))"
proof -
  have nul: "NUL \<notin> set l" if "l \<in> set (fgets_lines s)" for l
    using fgets_lines_subset [OF that] assms(1) by auto
  then show "map cstr (filter (keeps_line f) (fgets_lines s)) = filter (keeps_line f) (fgets_lines s)"
    by (intro map_idI) (auto simp: cstr_id)
  show "\<forall>l\<in>set (filter (keeps_line f) (fgets_lines s)). full_line l"
    using fgets_lines_all_full [OF assms(2)] by auto
  show "NUL \<notin> set (concat (filter (keeps_line f) (fgets_lines s)))"
    using nul by auto
qed

lemma remove_from_staging_Done:
  assumes "remove_from_staging f fs = Done fs2" and "files fs STAGING_FILE = Some s"
    and "writable fs STAGING_FILE"
  shows "fs2 = fs\<lparr>files := (files fs)(STAGING_FILE \<mapsto>
                   concat (map cstr (filter (keeps_line f) (fgets_lines s)))),
               written := STAGING_FILE # written fs\<rparr>"
proof -
  from assms obtain lines where l: "remove_loop f (fgets_lines s) [] = Done lines"
    by (auto simp: remove_from_staging_def split: exec.splits)
  from remove_loop_Done [OF l] have "lines = map cstr (filter (keeps_line f) (fgets_lines s))"
    by simp
  with assms l show ?thesis
    by (simp add: remove_from_staging_def fopen_w_def)
qed

lemma mygit_add_staging:
  assumes nm: "name_ok f" and ok: "staging_ok fs" and c: "files fs (WORK f) = Some c"
    and res: "mygit_add f fs = Done (0, rep, fs')"
  shows "files fs' STAGING_FILE =
           Some (concat (filter (keeps_line f) (staging_lines fs)) @
                 staging_line f (hash_content (take 9999 c)))"
    and "rep = Staged (hash_content (take 9999 c))"
proof -
  define h where "h = hash_content (take 9999 c)"
  from nm have f: "f \<noteq> []" "hd f \<noteq> CHR ''#''"
    by (auto simp: name_ok_def)
  from res c obtain fs1 where sb: "save_blob (take 9999 c) h fs = Some fs1"
    by (auto simp: mygit_add_def file_exists_def read_file_def h_def Let_def split: option.splits)
  note fr = save_blob_frame [OF sb]
  have lines1: "staging_lines fs1 = staging_lines fs"
    by (simp add: staging_lines_def fr(1))
  from res c sb obtain fs2 where
    rm: "(if is_already_staged f fs1 then remove_from_staging f fs1 else Done fs1) = Done fs2"
    and ap: "fopen_a STAGING_FILE (staging_line f h) fs2 = Some fs'"
    and rep: "rep = Staged h"
    by (auto simp: mygit_add_def file_exists_def read_file_def h_def [symmetric] staging_line_def
        Let_def split: option.splits exec.splits)
  from rep show "rep = Staged (hash_content (take 9999 c))"
    by (simp add: h_def)
  have "files fs2 STAGING_FILE = Some (concat (filter (keeps_line f) (staging_lines fs))) \<or>
        (files fs2 STAGING_FILE = None \<and> filter (keeps_line f) (staging_lines fs) = [])"
  proof (cases "is_already_staged f fs1")
    case False
    with rm have eq: "fs2 = fs1" by simp
    from False have "\<not> list_ex (staged_line_matches f) (staging_lines fs)"
      by (simp add: is_already_staged_lines lines1)
    from filter_keeps_unstaged [OF f this] show ?thesis
      by (cases "files fs STAGING_FILE")
         (simp_all add: eq fr(1) staging_lines_def concat_fgets_lines)
  next
    case True
    then obtain s where s: "files fs1 STAGING_FILE = Some s"
      by (cases "files fs1 STAGING_FILE") (auto simp: is_already_staged_def)
    from True rm have rm': "remove_from_staging f fs1 = Done fs2" by simp
    have w2: "writable fs2 = writable fs1"
      using rm' s
      by (auto simp: remove_from_staging_def fopen_w_def split: exec.splits if_splits)
    from ap have "writable fs2 STAGING_FILE"
      by (auto simp: fopen_a_def split: if_splits)
    with w2 have w1: "writable fs1 STAGING_FILE" by simp
    from s ok fr(1) have tx: "NUL \<notin> set s" "s = [] \<or> last s = LF"
      by (auto simp: staging_ok_def)
    from remove_from_staging_Done [OF rm' s w1] kept_lines_text(1) [OF tx, of f]
    show ?thesis
      using s fr(1) by (simp add: staging_lines_def)
  qed
  with ap show "files fs' STAGING_FILE =
           Some (concat (filter (keeps_line f) (staging_lines fs)) @
                 staging_line f (hash_content (take 9999 c)))"
    by (auto simp: fopen_a_def h_def split: if_splits)
qed

lemma mygit_add_lines:
  assumes nm: "name_ok f" and ok: "staging_ok fs" and c: "files fs (WORK f) = Some c"
    and res: "mygit_add f fs = Done (0, rep, fs')"
  shows "staging_lines fs' =
           filter (keeps_line f) (staging_lines fs) @ [staging_line f (hash_content (take 9999 c))]"
    and "staging_ok fs'"
proof -
  let ?kept = "filter (keeps_line f) (staging_lines fs)"
  let ?nl = "staging_line f (hash_content (take 9999 c))"
  note st = mygit_add_staging(1) [OF nm ok c res]
  have kept: "(\<forall>l\<in>set ?kept. full_line l) \<and> NUL \<notin> set (concat ?kept)"
  proof (cases "files fs STAGING_FILE")
    case None
    then show ?thesis by (simp add: staging_lines_def)
  next
    case (Some s)
    with ok have "NUL \<notin> set s" "s = [] \<or> last s = LF"
      by (auto simp: staging_ok_def)
    from kept_lines_text(2,3) [OF this, of f] Some show ?thesis
      by (simp add: staging_lines_def)
  qed
  have "fgets_lines (concat ?kept @ ?nl) = ?kept @ fgets_lines ?nl"
    using kept by (intro fgets_lines_concat) blast
  moreover have "fgets_lines ?nl = [?nl]"
    using fgets_lines_full_append [OF full_staging_line [OF nm], of _ "[]"] by simp
  ultimately show "staging_lines fs' = ?kept @ [?nl]"
    by (simp add: staging_lines_def st)
  have "last ?nl = LF" "?nl \<noteq> []"
    by (simp_all add: staging_line_def)
  with kept staging_line_no_NUL [OF nm] show "staging_ok fs'"
    by (simp add: staging_ok_def st)
qed

lemma mygit_add_entries:
  assumes nm: "name_ok f" and ok: "staging_ok fs" and c: "files fs (WORK f) = Some c"
    and res: "mygit_add f fs = Done (0, rep, fs')"
  shows "staged_entries fs' =
           filter (\<lambda>e. fst e \<noteq> f) (staged_entries fs) @ [(f, hash_content (take 9999 c))]"
  by (simp add: staged_entries_def mygit_add_lines(1) [OF assms] map_filter_append
      entries_of_kept entry_of_staging_line [OF nm] List.map_filter_simps)


lemma remove_from_staging_frame:
  assumes "remove_from_staging f fs = Done fs2"
  shows "writable fs2 = writable fs" and "p \<noteq> STAGING_FILE \<Longrightarrow> files fs2 p = files fs p"
  using assms
  by (auto simp: remove_from_staging_def fopen_w_def split: option.splits exec.splits if_splits)

lemma mygit_add_frame:
  assumes "mygit_add f fs = Done (rc, rep, fs')"
  shows "writable fs' = writable fs"
    and "p \<noteq> STAGING_FILE \<Longrightarrow> \<forall>k. p \<noteq> OBJECTS_DIR k \<Longrightarrow> files fs' p = files fs p"
    and "files fs (OBJECTS_DIR k) = Some x \<Longrightarrow> files fs' (OBJECTS_DIR k) = Some x"
proof -
  have "writable fs' = writable fs \<and>
        (p \<noteq> STAGING_FILE \<longrightarrow> (\<forall>k. p \<noteq> OBJECTS_DIR k) \<longrightarrow> files fs' p = files fs p) \<and>
        (files fs (OBJECTS_DIR k) = Some x \<longrightarrow> files fs' (OBJECTS_DIR k) = Some x)"
  proof (cases "files fs (WORK f)")
    case None
    with assms show ?thesis
      by (simp add: mygit_add_def file_exists_def)
  next
    case (Some c)
    define h where "h = hash_content (take 9999 c)"
    show ?thesis
    proof (cases "save_blob (take 9999 c) h fs")
      case None
      with assms Some show ?thesis
        by (simp add: mygit_add_def file_exists_def read_file_def h_def)
    next
      case sb: (Some fs1)
      have b1: "files fs (OBJECTS_DIR k) = Some x \<longrightarrow> files fs1 (OBJECTS_DIR k) = Some x"
        using sb by (auto simp: save_blob_def file_exists_def write_file_def fopen_w_def
            split: if_splits)
      note fr = save_blob_frame [OF sb]
      from assms Some sb obtain fs2 where
        rm: "(if is_already_staged f fs1 then remove_from_staging f fs1 else Done fs1) = Done fs2"
        by (auto simp: mygit_add_def file_exists_def read_file_def h_def [symmetric]
            split: exec.splits)
      have fr2: "writable fs2 = writable fs1" "\<And>q. q \<noteq> STAGING_FILE \<Longrightarrow> files fs2 q = files fs1 q"
        using rm remove_from_staging_frame [of f fs1 fs2]
        by (auto split: if_splits)
      from assms Some sb rm have
        "fs' = fs2 \<or> fopen_a STAGING_FILE (staging_line f h) fs2 = Some fs'"
        by (auto simp: mygit_add_def file_exists_def read_file_def h_def [symmetric]
            staging_line_def split: option.splits)
      then have fr3: "writable fs' = writable fs2" "\<And>q. q \<noteq> STAGING_FILE \<Longrightarrow> files fs' q = files fs2 q"
        by (auto simp: fopen_a_def split: if_splits)
      from fr fr2 fr3 b1 show ?thesis by auto
    qed
  qed
  then show "writable fs' = writable fs"
    and "p \<noteq> STAGING_FILE \<Longrightarrow> \<forall>k. p \<noteq> OBJECTS_DIR k \<Longrightarrow> files fs' p = files fs p"
    and "files fs (OBJECTS_DIR k) = Some x \<Longrightarrow> files fs' (OBJECTS_DIR k) = Some x"
    by auto
qed

lemma mygit_add_succeeds:
  assumes nm: "name_ok f" and ok: "staging_ok fs" and c: "files fs (WORK f) = Some c"
    and w: "writable fs STAGING_FILE"
    and b: "files fs (OBJECTS_DIR (hash_content (take 9999 c))) \<noteq> None \<or>
            writable fs (OBJECTS_DIR (hash_content (take 9999 c)))"
    and room: "is_already_staged f fs \<Longrightarrow> length (filter (keeps_line f) (staging_lines fs)) \<le> 100"
  shows "\<exists>fs'. mygit_add f fs = Done (0, Staged (hash_content (take 9999 c)), fs')"
proof -
  define h where "h = hash_content (take 9999 c)"
  from b have "\<exists>fs1. save_blob (take 9999 c) h fs = Some fs1"
    by (cases "files fs (OBJECTS_DIR h)")
       (simp_all add: save_blob_def file_exists_def write_file_def fopen_w_def h_def)
  then obtain fs1 where sb: "save_blob (take 9999 c) h fs = Some fs1"
    by blast
  note fr = save_blob_frame [OF sb]
  have "\<exists>fs2. (if is_already_staged f fs1 then remove_from_staging f fs1 else Done fs1) = Done fs2"
  proof (cases "is_already_staged f fs1")
    case False
    then show ?thesis by simp
  next
    case True
    then obtain s where s: "files fs1 STAGING_FILE = Some s"
      by (cases "files fs1 STAGING_FILE") (auto simp: is_already_staged_def)
    with fr(1) have s0: "files fs STAGING_FILE = Some s" by simp
    from True fr(1) have "is_already_staged f fs"
      by (simp add: is_already_staged_def)
    from room [OF this] s0
    have "length [] + length (filter (keeps_line f) (fgets_lines s)) \<le> 100"
      by (simp add: staging_lines_def)
    from remove_loop_fits [OF this] s True show ?thesis
      by (simp add: remove_from_staging_def split: option.splits)
  qed
  then obtain fs2 where
    rm: "(if is_already_staged f fs1 then remove_from_staging f fs1 else Done fs1) = Done fs2"
    by blast
  have "writable fs2 = writable fs1"
    using rm remove_from_staging_frame(1) [of f fs1 fs2] by (auto split: if_splits)
  with fr(2) w have "writable fs2 STAGING_FILE" by simp
  then obtain fs3 where ap: "fopen_a STAGING_FILE (staging_line f h) fs2 = Some fs3"
    by (simp add: fopen_a_def)
  from c sb rm ap show ?thesis
    by (simp add: mygit_add_def file_exists_def read_file_def h_def [symmetric] staging_line_def)
qed

lemma stage_step:
  assumes nm: "name_ok f" and ok: "staging_ok fs" and c: "files fs (WORK f) = Some c"
    and w: "\<forall>p. writable fs p" and n: "length (staging_lines fs) \<le> n" "n \<le> 100"
  shows "\<exists>fs'. mygit_add f fs = Done (0, Staged (hash_content (take 9999 c)), fs') \<and>
           staging_ok fs' \<and> (\<forall>p. writable fs' p) \<and>
           (\<forall>g. files fs' (WORK g) = files fs (WORK g)) \<and>
           length (staging_lines fs') \<le> n + 1 \<and>
           staged_entries fs' =
             filter (\<lambda>e. fst e \<noteq> f) (staged_entries fs) @ [(f, hash_content (take 9999 c))]"
proof -
  have "length (filter (keeps_line f) (staging_lines fs)) \<le> length (staging_lines fs)"
    by simp
  with n have room: "length (filter (keeps_line f) (staging_lines fs)) \<le> 100" by linarith
  from mygit_add_succeeds [OF nm ok c _ _ room] w obtain fs' where
    r: "mygit_add f fs = Done (0, Staged (hash_content (take 9999 c)), fs')"
    by blast
  note l = mygit_add_lines [OF nm ok c r]
  have "length (staging_lines fs') \<le> n + 1"
    using n by (simp add: l(1)) (meson le_trans length_filter_le)
  moreover have "\<forall>p. writable fs' p"
    using mygit_add_frame(1) [OF r] w by simp
  moreover have "\<forall>g. files fs' (WORK g) = files fs (WORK g)"
    using mygit_add_frame(2) [OF r] by simp
  ultimately show ?thesis
    using r l(2) mygit_add_entries [OF nm ok c r] by blast
qed

lemma two_files_facts:
  "staging_ok two_files" "\<forall>p. writable two_files p" "length (staging_lines two_files) \<le> 1"
  "staged_entries two_files = []"
  "files two_files (WORK ''a'') = Some ''hello''" "files two_files (WORK ''b'') = Some ''world''"
  by (simp_all add: two_files_def initialized_def mygit_init_files_def staging_ok_def
      staging_lines_def staged_entries_def entry_of_line_def cstr_def strcspn_cut_def
      skipped_line_def List.map_filter_simps)

lemma name_ok_a_b: "name_ok ''a''" "name_ok ''b''"
  by (simp_all add: name_ok_def)


lemma hash_hello: "hash_content ''hello'' = 210714636441"
  by (simp add: hash_content_def cstr_def char_to_ulong_def)


lemmas line_eval = cstr_def strcspn_cut_def strtok_def staged_line_matches_def
  entry_of_line_def skipped_line_def split_entry_def strtoul_def scan_number_def
  isspace_def isdigit_def digits_val_def digit_val_def List.map_filter_simps

lemma two_staged_facts:
  "staging_ok two_staged" "files two_staged (WORK ''a'') = Some ''hello''"
  "writable two_staged STAGING_FILE"
  "writable two_staged (OBJECTS_DIR (hash_content (take 9999 ''hello'')))"
  "is_already_staged ''a'' two_staged"
  "length (filter (keeps_line ''a'') (staging_lines two_staged)) \<le> 100"
  "staged_entries two_staged = [(''a'', 1), (''b'', 2)]"
  by (simp_all add: two_staged_def initialized_def mygit_init_files_def staging_ok_def
      staging_lines_def staged_entries_def is_already_staged_def keeps_line_def line_eval)

section \<open>What \<open>mygit_commit\<close> writes\<close>

lemma read_staged_loop_Done:
  "length acc \<le> 10 \<Longrightarrow> read_staged_loop ls acc = Done r \<Longrightarrow>
   r = acc @ take (10 - length acc) (List.map_filter entry_of_line ls)"
proof (induction ls arbitrary: acc)
  case Nil
  then show ?case by (simp add: List.map_filter_simps)
next
  case (Cons l ls)
  show ?case
  proof (cases "entry_of_line l")
    case None
    then have "skipped_line (strcspn_cut (cstr l)) \<or> split_entry (strcspn_cut (cstr l)) = None"
      by (auto simp: entry_of_line_def Let_def split: if_splits)
    with Cons.prems Cons.IH [of acc] None show ?thesis
      by (auto simp: List.map_filter_simps Let_def split: if_splits)
  next
    case (Some e)
    obtain fn h where e: "e = (fn, h)" by (cases e)
    from Some e have ns: "\<not> skipped_line (strcspn_cut (cstr l))"
      and sp: "split_entry (strcspn_cut (cstr l)) = Some (fn, h)"
      by (auto simp: entry_of_line_def Let_def split: if_splits)
    show ?thesis
    proof (cases "length acc \<ge> 10")
      case True
      with Cons.prems ns show ?thesis by (simp add: Let_def)
    next
      case False
      with Cons.prems ns sp have "read_staged_loop ls (acc @ [(fn, h)]) = Done r"
        by (simp add: Let_def split: if_splits)
      from Cons.IH [OF _ this] False have "r = (acc @ [(fn, h)]) @
          take (10 - length (acc @ [(fn, h)])) (List.map_filter entry_of_line ls)"
        by simp
      moreover from False have "10 - length acc = Suc (10 - length (acc @ [(fn, h)]))"
        by simp
      ultimately show ?thesis
        using Some e by (simp add: List.map_filter_simps)
    qed
  qed
qed

lemma read_staged_loop_fits:
  "length acc \<le> 10 \<Longrightarrow>
   \<forall>e\<in>set (take (10 - length acc) (List.map_filter entry_of_line ls)). length (fst e) < 256 \<Longrightarrow>
   read_staged_loop ls acc = Done (acc @ take (10 - length acc) (List.map_filter entry_of_line ls))"
proof (induction ls arbitrary: acc)
  case Nil
  then show ?case by (simp add: List.map_filter_simps)
next
  case (Cons l ls)
  show ?case
  proof (cases "entry_of_line l")
    case None
    then have "skipped_line (strcspn_cut (cstr l)) \<or> split_entry (strcspn_cut (cstr l)) = None"
      by (auto simp: entry_of_line_def Let_def split: if_splits)
    with Cons.prems Cons.IH [of acc] None show ?thesis
      by (auto simp: List.map_filter_simps Let_def)
  next
    case (Some e)
    obtain fn h where e: "e = (fn, h)" by (cases e)
    from Some e have ns: "\<not> skipped_line (strcspn_cut (cstr l))"
      and sp: "split_entry (strcspn_cut (cstr l)) = Some (fn, h)"
      by (auto simp: entry_of_line_def Let_def split: if_splits)
    show ?thesis
    proof (cases "length acc \<ge> 10")
      case True
      with Cons.prems ns show ?thesis by (simp add: Let_def)
    next
      case False
      then have st: "10 - length acc = Suc (10 - length (acc @ [(fn, h)]))"
        by simp
      with Cons.prems(2) Some e have short: "length fn < 256"
        and rest: "\<forall>e\<in>set (take (10 - length (acc @ [(fn, h)]))
                      (List.map_filter entry_of_line ls)). length (fst e) < 256"
        by (auto simp: List.map_filter_simps)
      from False have "length (acc @ [(fn, h)]) \<le> 10" by simp
      from Cons.IH [OF this rest] False ns sp short st Some e show ?thesis
        by (simp add: Let_def List.map_filter_simps)
    qed
  qed
qed

lemma read_staged_files_Done:
  assumes "read_staged_files fs = Done (Some es)"
  shows "es = take 10 (staged_entries fs)"
proof -
  from assms obtain s where s: "files fs STAGING_FILE = Some s"
    and l: "read_staged_loop (fgets_lines s) [] = Done es"
    by (auto simp: read_staged_files_def split: option.splits exec.splits)
  from read_staged_loop_Done [OF _ l] s show ?thesis
    by (simp add: staged_entries_def staging_lines_def)
qed

text \<open>The record a commit builds from the state it starts in.\<close>

lemma mygit_commit_Done:
  assumes "mygit_commit msg now fs = Done (0, rep, fs')"
  defines "br \<equiv> get_current_branch MAX_BRANCH_NAME fs"
  defines "c \<equiv> \<lparr>cid = get_next_commit_id fs,
                 message = take 255 (cstr msg),
                 timestamp = now,
                 branch = br,
                 parent_id = (if get_last_commit_id_on_branch br fs = 0 then - 1
                              else get_last_commit_id_on_branch br fs),
                 file_count = length (take 10 (staged_entries fs)),
                 filenames = map fst (take 10 (staged_entries fs)),
                 file_hashes = map snd (take 10 (staged_entries fs))\<rparr>"
  shows "rep = CommitSuccessful c"
    and "\<exists>fs1. save_commit c fs = Some fs1 \<and>
           fs' = clear_staging_area (update_branch_ref br (get_next_commit_id fs) fs1)"
proof -
  from assms(1) have cnt: "count_staged_files fs \<noteq> 0"
    by (auto simp: mygit_commit_def split: if_splits)
  with assms(1) obtain es where rs: "read_staged_files fs = Done (Some es)"
    by (auto simp: mygit_commit_def Let_def split: exec.splits option.splits)
  note es = read_staged_files_Done [OF rs]
  from assms(1) cnt rs es show "rep = CommitSuccessful c"
    by (auto simp: mygit_commit_def Let_def c_def br_def split: option.splits)
  from assms(1) cnt rs es show "\<exists>fs1. save_commit c fs = Some fs1 \<and>
           fs' = clear_staging_area (update_branch_ref br (get_next_commit_id fs) fs1)"
    by (auto simp: mygit_commit_def Let_def c_def br_def split: option.splits)
qed

lemma commit_log_after:
  assumes "save_commit c fs = Some fs1"
    and "fs' = clear_staging_area (update_branch_ref br i fs1)"
  shows "files fs' COMMITS_FILE =
           Some ((case files fs COMMITS_FILE of None \<Rightarrow> [] | Some log \<Rightarrow> log) @ commit_text c)"
  using assms
  by (auto simp: save_commit_def fopen_a_def clear_staging_area_def update_branch_ref_def
      write_file_def fopen_w_def split: if_splits)

lemma mygit_commit_succeeds:
  assumes "count_staged_files fs \<noteq> 0"
    and "\<forall>e\<in>set (take 10 (staged_entries fs)). length (fst e) < 256"
    and "writable fs COMMITS_FILE"
  shows "\<exists>rep fs'. mygit_commit msg now fs = Done (0, rep, fs')"
proof -
  from assms(1) obtain s where s: "files fs STAGING_FILE = Some s"
    by (cases "files fs STAGING_FILE") (auto simp: count_staged_files_def)
  from assms(2) s have "read_staged_loop (fgets_lines s) [] =
      Done ([] @ take (10 - length ([] :: (string \<times> ulong) list))
        (List.map_filter entry_of_line (fgets_lines s)))"
    by (intro read_staged_loop_fits) (auto simp: staged_entries_def staging_lines_def)
  with s have "read_staged_files fs = Done (Some (take 10 (List.map_filter entry_of_line (fgets_lines s))))"
    by (simp add: read_staged_files_def)
  with assms(1,3) show ?thesis
    by (simp add: mygit_commit_def Let_def save_commit_def fopen_a_def)
qed

lemma entries_counted:
  assumes "staged_entries fs \<noteq> []"
  shows "count_staged_files fs \<noteq> 0"
proof -
  from assms obtain s where s: "files fs STAGING_FILE = Some s"
    by (cases "files fs STAGING_FILE")
       (auto simp: staged_entries_def staging_lines_def List.map_filter_simps)
  from assms s have "\<exists>l\<in>set (fgets_lines s). entry_of_line l \<noteq> None"
    by (auto simp: staged_entries_def staging_lines_def List.map_filter_def filter_empty_conv)
  then obtain l where l: "l \<in> set (fgets_lines s)" "entry_of_line l \<noteq> None"
    by blast
  from l(2) have "\<not> skipped_line (strcspn_cut (cstr l))"
    by (auto simp: entry_of_line_def Let_def split: if_splits)
  with l(1) have "filter (\<lambda>buf. \<not> skipped_line (strcspn_cut (cstr buf))) (fgets_lines s) \<noteq> []"
    by (auto simp: filter_empty_conv)
  with s show ?thesis
    by (simp add: count_staged_files_def)
qed

lemma one_staged_facts:
  "staged_entries one_staged = [(''a'', 1)]" "count_staged_files one_staged \<noteq> 0"
  "writable one_staged COMMITS_FILE"
  "files one_staged COMMITS_FILE = Some (''# MyGit Commit History'' @ [LF])"
  by (simp_all add: one_staged_def initialized_def mygit_init_files_def staged_entries_def
      staging_lines_def count_staged_files_def line_eval)

lemma eleven_staged_facts:
  "staged_entries eleven_staged =
     [(''a'', 1), (''b'', 2), (''c'', 3), (''d'', 4), (''e'', 5), (''f'', 6), (''g'', 7),
      (''h'', 8), (''i'', 9), (''j'', 10), (''k'', 11)]"
  "count_staged_files eleven_staged \<noteq> 0" "writable eleven_staged COMMITS_FILE"
  by (simp_all add: eleven_staged_def initialized_def mygit_init_files_def staged_entries_def
      staging_lines_def count_staged_files_def line_eval)

lemma mygit_add_overflow:
  assumes c: "files fs (WORK f) = Some c"
    and b: "files fs (OBJECTS_DIR (hash_content (take 9999 c))) \<noteq> None \<or>
            writable fs (OBJECTS_DIR (hash_content (take 9999 c)))"
    and st: "is_already_staged f fs"
    and many: "100 < length (filter (keeps_line f) (staging_lines fs))"
  shows "mygit_add f fs = Fault"
proof -
  define h where "h = hash_content (take 9999 c)"
  from b have "\<exists>fs1. save_blob (take 9999 c) h fs = Some fs1"
    by (cases "files fs (OBJECTS_DIR h)")
       (simp_all add: save_blob_def file_exists_def write_file_def fopen_w_def h_def)
  then obtain fs1 where sb: "save_blob (take 9999 c) h fs = Some fs1"
    by blast
  note fr = save_blob_frame [OF sb]
  from st fr(1) have st1: "is_already_staged f fs1"
    by (simp add: is_already_staged_def)
  then obtain s where s: "files fs1 STAGING_FILE = Some s"
    by (cases "files fs1 STAGING_FILE") (auto simp: is_already_staged_def)
  with fr(1) have "files fs STAGING_FILE = Some s" by simp
  with many have "100 < length ([] :: string list) + length (filter (keeps_line f) (fgets_lines s))"
    by (simp add: staging_lines_def)
  from remove_loop_overflow [OF _ this] s have "remove_from_staging f fs1 = Fault"
    by (simp add: remove_from_staging_def)
  with c sb st1 show ?thesis
    by (simp add: mygit_add_def file_exists_def read_file_def h_def [symmetric])
qed

lemma name_ok_show_nat: "i < 1000 \<Longrightarrow> name_ok (show_nat i)"
proof -
  assume i: "i < 1000"
  have d: "\<And>c. c \<in> set (show_nat i) \<Longrightarrow> isdigit c"
    by (rule show_nat_digits)
  have ne: "show_nat i \<noteq> []" by (rule show_nat_nonempty)
  then have "hd (show_nat i) \<in> set (show_nat i)" by simp
  with d have "isdigit (hd (show_nat i))" by blast
  then have "hd (show_nat i) \<noteq> CHR ''#''"
    using not_isdigit_simps by auto
  moreover have "length (show_nat i) \<le> 3"
    using i by (intro length_show_nat) simp_all
  ultimately show ?thesis
    using ne show_nat_no_char [of _ i] by (simp add: name_ok_def not_isdigit_simps)
qed

lemma keeps_other_line:
  assumes "name_ok g" and "g \<noteq> f"
  shows "keeps_line f (staging_line g h)"
proof -
  from assms have g: "g \<noteq> []" "CHR ''|'' \<notin> set g"
    by (auto simp: name_ok_def)
  show ?thesis
    using strtok_field [OF g, of "show_nat (unat h)"] assms(2)
    by (simp add: keeps_line_def staging_line_body [OF assms(1)])
qed

lemma crowded_lines:
  "staging_lines crowded =
     ((''# MyGit Staging Area'' @ [LF]) # map (\<lambda>i. staging_line (show_nat i) 5381) [0..<100]) @
     [staging_line ''b'' 210714636441]"
proof -
  let ?ls = "(''# MyGit Staging Area'' @ [LF]) # map (\<lambda>i. staging_line (show_nat i) 5381) [0..<100]"
  have "full_line (''# MyGit Staging Area'' @ [LF])"
    by (simp add: full_line_def)
  moreover have "full_line (staging_line (show_nat i) 5381)" if "i < 100" for i
    using that by (intro full_staging_line name_ok_show_nat) simp
  ultimately have "\<forall>l\<in>set ?ls. full_line l" by auto
  from fgets_lines_concat [OF this, of "staging_line ''b'' 210714636441"]
    fgets_lines_full_append [OF full_staging_line [OF name_ok_a_b(2)], of 210714636441 "[]"]
  show ?thesis
    by (simp add: staging_lines_def crowded_def initialized_def mygit_init_files_def)
qed

section \<open>The content \<open>mygit_add\<close> reads\<close>

lemma hash_content_cstr: "hash_content (cstr c) = hash_content c"
  by (simp add: hash_content_def cstr_def)

lemma cstr_cstr: "cstr (cstr c) = cstr c"
  by (simp add: cstr_def)

text \<open>Replacing the content of a working file commutes with every step of staging.\<close>

lemma upd_work_commute:
  "p \<noteq> WORK f \<Longrightarrow> (m(WORK f \<mapsto> c))(p \<mapsto> x) = (m(p \<mapsto> x))(WORK f \<mapsto> c)"
  by (rule fun_upd_twist) simp

lemma save_blob_upd_work:
  assumes "cstr a = cstr b"
  shows "save_blob b h (fs\<lparr>files := (files fs)(WORK f \<mapsto> y)\<rparr>) =
         map_option (\<lambda>s. s\<lparr>files := (files s)(WORK f \<mapsto> y)\<rparr>) (save_blob a h fs)"
  using assms
  by (simp add: save_blob_def file_exists_def write_file_def fopen_w_def upd_work_commute)

lemma is_already_staged_upd_work:
  "is_already_staged g (fs\<lparr>files := (files fs)(WORK f \<mapsto> y)\<rparr>) = is_already_staged g fs"
  by (simp add: is_already_staged_def)

lemma remove_from_staging_upd_work:
  "remove_from_staging g (fs\<lparr>files := (files fs)(WORK f \<mapsto> y)\<rparr>) =
   map_exec (\<lambda>s. s\<lparr>files := (files s)(WORK f \<mapsto> y)\<rparr>) (remove_from_staging g fs)"
  by (simp add: remove_from_staging_def fopen_w_def upd_work_commute split: option.splits exec.splits)

lemma fopen_a_upd_work:
  "fopen_a STAGING_FILE x (fs\<lparr>files := (files fs)(WORK f \<mapsto> y)\<rparr>) =
   map_option (\<lambda>s. s\<lparr>files := (files s)(WORK f \<mapsto> y)\<rparr>) (fopen_a STAGING_FILE x fs)"
  by (simp add: fopen_a_def upd_work_commute)

lemma mygit_add_blob:
  assumes c: "files fs (WORK f) = Some c" and r: "mygit_add f fs = Done (0, rep, fs')"
  shows "rep = Staged (hash_content (cstr (take 9999 c)))"
    and "files fs (OBJECTS_DIR (hash_content (cstr (take 9999 c)))) = None \<Longrightarrow>
         files fs' (OBJECTS_DIR (hash_content (cstr (take 9999 c)))) = Some (cstr (take 9999 c))"
proof -
  define h where "h = hash_content (take 9999 c)"
  have hc: "hash_content (cstr (take 9999 c)) = h"
    by (simp add: h_def hash_content_cstr)
  from r c obtain fs1 where sb: "save_blob (take 9999 c) h fs = Some fs1"
    by (auto simp: mygit_add_def file_exists_def read_file_def h_def Let_def split: option.splits)
  from r c sb obtain fs2 where
    rm: "(if is_already_staged f fs1 then remove_from_staging f fs1 else Done fs1) = Done fs2"
    and ap: "fopen_a STAGING_FILE (staging_line f h) fs2 = Some fs'"
    and rep: "rep = Staged h"
    by (auto simp: mygit_add_def file_exists_def read_file_def h_def [symmetric] staging_line_def
        Let_def split: option.splits exec.splits)
  from rep show "rep = Staged (hash_content (cstr (take 9999 c)))"
    by (simp add: hc)
  assume "files fs (OBJECTS_DIR (hash_content (cstr (take 9999 c)))) = None"
  with sb have "files fs1 (OBJECTS_DIR h) = Some (cstr (take 9999 c))"
    by (auto simp: hc save_blob_def file_exists_def write_file_def fopen_w_def split: if_splits)
  moreover have "files fs2 (OBJECTS_DIR h) = files fs1 (OBJECTS_DIR h)"
    using rm remove_from_staging_frame(2) [of f fs1 fs2 "OBJECTS_DIR h"]
    by (auto split: if_splits)
  moreover have "files fs' (OBJECTS_DIR h) = files fs2 (OBJECTS_DIR h)"
    using ap by (auto simp: fopen_a_def split: if_splits)
  ultimately show "files fs' (OBJECTS_DIR (hash_content (cstr (take 9999 c)))) =
      Some (cstr (take 9999 c))"
    by (simp add: hc)
qed

lemma mygit_commit_blobs:
  assumes "mygit_commit msg now fs = Done (rc, rep, fs')"
  shows "files fs' (OBJECTS_DIR k) = files fs (OBJECTS_DIR k)"
proof (cases "count_staged_files fs = 0")
  case True
  with assms show ?thesis by (simp add: mygit_commit_def)
next
  case False
  show ?thesis
  proof (cases "read_staged_files fs")
    case Fault
    with assms False show ?thesis by (simp add: mygit_commit_def Let_def)
  next
    case (Done ov)
    show ?thesis
    proof (cases ov)
      case None
      with assms False Done show ?thesis by (simp add: mygit_commit_def Let_def)
    next
      case (Some es)
      with assms False Done show ?thesis
        by (auto simp: mygit_commit_def Let_def save_commit_def fopen_a_def
            clear_staging_area_def update_branch_ref_def write_file_def fopen_w_def
            split: option.splits if_splits)
    qed
  qed
qed

text \<open>Two contents with one fingerprint: the hash is not injective.\<close>

lemma hash_collision: "hash_content ''Ab'' = hash_content ''BA''"
  by (simp add: hash_content_def cstr_def char_to_ulong_def)

section \<open>Scanning the commit log\<close>




















lemmas log_eval = get_next_commit_id_def scan_max_def sscanf_COMMIT_def scan_int_def
  get_current_branch_def get_last_commit_id_on_branch_def read_file_def atoi_def
  count_staged_files_def staged_entries_def staging_lines_def log_ok_def round_ok_def
  initialized_def mygit_init_files_def




text \<open>
  Why the message must not hold a line feed: the record is written unescaped, so the
  message \<open>x\<close>, line feed, \<open>COMMIT:99\<close> leaves a line that the scan of
  \<open>get_next_commit_id\<close> reads as the header of a commit 99.
\<close>

lemma message_forges_header:
  "\<exists>rep fs'. mygit_commit (''x'' @ [LF] @ ''COMMIT:99'') ''2025-01-15 14:30:00'' one_staged =
       Done (0, rep, fs') \<and>
     get_next_commit_id one_staged = 1 \<and> get_next_commit_id fs' = 100"
proof -
  note o = one_staged_facts
  have "\<forall>e\<in>set (take 10 (staged_entries one_staged)). length (fst e) < 256"
    by (simp add: o(1))
  from mygit_commit_succeeds [OF o(2) this o(3)] obtain rep fs' where
    r: "mygit_commit (''x'' @ [LF] @ ''COMMIT:99'') ''2025-01-15 14:30:00'' one_staged =
          Done (0, rep, fs')"
    by blast
  from mygit_commit_Done(2) [OF r] obtain fs1 c where
    "save_commit c one_staged = Some fs1"
    "fs' = clear_staging_area (update_branch_ref (get_current_branch MAX_BRANCH_NAME one_staged)
             (get_next_commit_id one_staged) fs1)"
    and c: "c = \<lparr>cid = get_next_commit_id one_staged,
                 message = take 255 (cstr (''x'' @ [LF] @ ''COMMIT:99'')),
                 timestamp = ''2025-01-15 14:30:00'',
                 branch = get_current_branch MAX_BRANCH_NAME one_staged,
                 parent_id = (if get_last_commit_id_on_branch (get_current_branch MAX_BRANCH_NAME one_staged) one_staged = 0 then - 1
                              else get_last_commit_id_on_branch (get_current_branch MAX_BRANCH_NAME one_staged) one_staged),
                 file_count = length (take 10 (staged_entries one_staged)),
                 filenames = map fst (take 10 (staged_entries one_staged)),
                 file_hashes = map snd (take 10 (staged_entries one_staged))\<rparr>"
    by blast
  note lg = commit_log_after [OF this(1,2)]
  have n: "get_next_commit_id one_staged = 1"
    "get_current_branch 50 one_staged = ''main''"
    "get_last_commit_id_on_branch ''main'' one_staged = 0"
    by (simp_all add: one_staged_def log_eval line_eval)
  have s1: "show_nat (Suc 0) = ''1''"
    by code_simp
  have sh: "show_int 1 = ''1''" "show_int (- 1) = ''-1''" "show_nat 1 = ''1''"
    using s1 by (simp_all add: show_int_def)
  have tx: "commit_text c = ''COMMIT:1'' @ [LF] @ ''MSG:x'' @ [LF] @ ''COMMIT:99'' @ [LF] @
      ''TIME:2025-01-15 14:30:00'' @ [LF] @ ''BRANCH:main'' @ [LF] @ ''PARENT:-1'' @ [LF] @
      ''FILES:a'' @ [LF] @ ''HASHES:1'' @ [LF] @ ''END'' @ [LF]"
    by (simp add: c commit_text_def n o(1) sh s1 cstr_def)
  have "get_next_commit_id fs' = 100"
    by (simp add: get_next_commit_id_def lg o(4) tx scan_max_def sscanf_COMMIT_def scan_int_def
        line_eval)
  with r n(1) show ?thesis
    by (intro exI [of _ rep] exI [of _ fs'] conjI)
qed

section \<open>Committing with nothing staged\<close>


lemma mygit_add_entries_only:
  assumes nm: "name_ok f" and ok: "staging_ok fs" and c: "files fs (WORK f) = Some c"
    and res: "mygit_add f fs = Done (0, rep, fs')"
    and eo: "entries_only fs"
  shows "entries_only fs'"
  using eo entry_of_staging_line [OF nm, of "hash_content (take 9999 c)"]
  by (auto simp: entries_only_def mygit_add_lines(1) [OF nm ok c res] list_all_iff)

lemma clear_staging_area_entries_only:
  "entries_only fs \<Longrightarrow> entries_only (clear_staging_area fs)"
  by (auto simp: entries_only_def clear_staging_area_def fopen_w_def staging_lines_def
      line_eval)





section \<open>The object store\<close>

text \<open>
  Claim C5, as the code has it. For a content without NUL byte, when no blob is stored
  under its fingerprint and the blob path can be written, the first \<open>save_blob\<close>
  stores the content under it with one write, and a later \<open>save_blob\<close> for the same
  fingerprint, whatever its content, returns 0 and leaves the file system, the list of
  writes included, as it is.
\<close>

theorem save_blob_writes_once:
  assumes "NUL \<notin> set c"
    and "files fs (OBJECTS_DIR (hash_content c)) = None"
    and "writable fs (OBJECTS_DIR (hash_content c))"
  shows "save_blob c (hash_content c) fs =
           Some (fs\<lparr>files := (files fs)(OBJECTS_DIR (hash_content c) \<mapsto> c),
                     written := OBJECTS_DIR (hash_content c) # written fs\<rparr>) \<and>
         save_blob c' (hash_content c)
             (fs\<lparr>files := (files fs)(OBJECTS_DIR (hash_content c) \<mapsto> c),
                  written := OBJECTS_DIR (hash_content c) # written fs\<rparr>) =
           Some (fs\<lparr>files := (files fs)(OBJECTS_DIR (hash_content c) \<mapsto> c),
                     written := OBJECTS_DIR (hash_content c) # written fs\<rparr>)"
  using assms
  by (simp add: save_blob_def file_exists_def write_file_def fopen_w_def cstr_id)

theorem save_blob_writes_once_witness:
  "NUL \<notin> set ''Ab'' \<and>
   files initialized (OBJECTS_DIR (hash_content ''Ab'')) = None \<and>
   writable initialized (OBJECTS_DIR (hash_content ''Ab'')) \<and>
   hash_content ''BA'' = hash_content ''Ab'' \<and>
   save_blob ''Ab'' (hash_content ''Ab'') initialized =
     Some (initialized\<lparr>files := (files initialized)(OBJECTS_DIR (hash_content ''Ab'') \<mapsto> ''Ab''),
                     written := [OBJECTS_DIR (hash_content ''Ab'')]\<rparr>) \<and>
   save_blob ''BA'' (hash_content ''BA'')
       (initialized\<lparr>files := (files initialized)(OBJECTS_DIR (hash_content ''Ab'') \<mapsto> ''Ab''),
                     written := [OBJECTS_DIR (hash_content ''Ab'')]\<rparr>) =
     Some (initialized\<lparr>files := (files initialized)(OBJECTS_DIR (hash_content ''Ab'') \<mapsto> ''Ab''),
                     written := [OBJECTS_DIR (hash_content ''Ab'')]\<rparr>)"
proof -
  have n: "NUL \<notin> set ''Ab''" by simp
  have a: "files initialized (OBJECTS_DIR (hash_content ''Ab'')) = None"
    by (simp add: initialized_def mygit_init_files_def)
  have b: "writable initialized (OBJECTS_DIR (hash_content ''Ab''))"
    by (simp add: initialized_def)
  have d: "written initialized = []" by (simp add: initialized_def)
  have h: "hash_content ''BA'' = hash_content ''Ab''"
    by (simp add: hash_collision)
  from save_blob_writes_once [OF n a b, of "''BA''"] n a b h show ?thesis
    by (simp only: d h simp_thms)
qed

text \<open>
  The claim as stated fails for content with a NUL byte: \<open>save_blob\<close> takes a C
  string, so of the three bytes \<open>a\<close>, NUL, \<open>b\<close> the one write of the first call
  persists the byte \<open>a\<close> alone.
\<close>

theorem put_with_NUL_counterexample:
  "save_blob [CHR ''a'', NUL, CHR ''b''] (hash_content [CHR ''a'', NUL, CHR ''b'']) initialized =
     Some (initialized
       \<lparr>files := (files initialized)(OBJECTS_DIR (hash_content [CHR ''a'', NUL, CHR ''b'']) \<mapsto> ''a''),
        written := [OBJECTS_DIR (hash_content [CHR ''a'', NUL, CHR ''b''])]\<rparr>)"
  by (simp add: save_blob_def file_exists_def write_file_def fopen_w_def cstr_def
      initialized_def mygit_init_files_def)

section \<open>Staging a file again\<close>

text \<open>
  Claim C7, as the code has it. Staging a file puts its entry last: the entries of the
  other file names keep their order, every earlier entry of the staged name is gone,
  and the new entry, with the hash of the first 9999 bytes read as a C string, follows
  them. This holds for a file name the line format can hold and a staging file written
  as text, when the working file exists, the blob and the staging file can be written
  and, if the name is already staged, the staging file holds at most 100 lines besides
  the entries of that name (the rows of the buffer of \<open>remove_from_staging\<close>):
  \<open>mygit_add\<close> then returns 0.
\<close>

theorem restage_moves_entry_last:
  assumes "name_ok f" and "staging_ok fs" and "files fs (WORK f) = Some c"
    and "writable fs STAGING_FILE"
    and "files fs (OBJECTS_DIR (hash_content (take 9999 c))) \<noteq> None \<or>
         writable fs (OBJECTS_DIR (hash_content (take 9999 c)))"
    and "is_already_staged f fs \<Longrightarrow> length (filter (keeps_line f) (staging_lines fs)) \<le> 100"
  shows "\<exists>fs'. mygit_add f fs = Done (0, Staged (hash_content (take 9999 c)), fs') \<and>
           staged_entries fs' =
             filter (\<lambda>e. fst e \<noteq> f) (staged_entries fs) @ [(f, hash_content (take 9999 c))]"
proof -
  from mygit_add_succeeds [OF assms] obtain fs' where
    r: "mygit_add f fs = Done (0, Staged (hash_content (take 9999 c)), fs')"
    by blast
  from r mygit_add_entries [OF assms(1,2,3) r] show ?thesis
    by blast
qed

theorem restage_moves_entry_last_witness:
  "name_ok ''a'' \<and> staging_ok two_staged \<and> files two_staged (WORK ''a'') = Some ''hello'' \<and>
   writable two_staged STAGING_FILE \<and>
   writable two_staged (OBJECTS_DIR (hash_content (take 9999 ''hello''))) \<and>
   is_already_staged ''a'' two_staged \<and>
   length (filter (keeps_line ''a'') (staging_lines two_staged)) \<le> 100 \<and>
   staged_entries two_staged = [(''a'', 1), (''b'', 2)] \<and>
   (\<exists>fs'. mygit_add ''a'' two_staged = Done (0, Staged 210714636441, fs') \<and>
          staged_entries fs' = [(''b'', 2), (''a'', 210714636441)])"
proof -
  note t = two_staged_facts
  from t(4) have b: "files two_staged (OBJECTS_DIR (hash_content (take 9999 ''hello''))) \<noteq> None \<or>
      writable two_staged (OBJECTS_DIR (hash_content (take 9999 ''hello'')))"
    by simp
  from restage_moves_entry_last [OF name_ok_a_b(1) t(1) t(2) t(3) b t(6)]
  have "\<exists>fs'. mygit_add ''a'' two_staged = Done (0, Staged 210714636441, fs') \<and>
          staged_entries fs' = [(''b'', 2), (''a'', 210714636441)]"
    by (simp add: t(7) hash_hello)
  with name_ok_a_b(1) t show ?thesis
    by (intro conjI)
qed

text \<open>
  The claim as stated fails: with \<open>a\<close> staged before \<open>b\<close>, staging \<open>a\<close> again
  moves it behind \<open>b\<close>.
\<close>

theorem restage_order_counterexample:
  "map_option (map fst \<circ> staged_entries) (stage_all [''a'', ''b''] two_files) = Some [''a'', ''b''] \<and>
   map_option (map fst \<circ> staged_entries) (stage_all [''a'', ''b'', ''a''] two_files) = Some [''b'', ''a'']"
proof -
  note t = two_files_facts
  obtain fs1 where s1: "mygit_add ''a'' two_files = Done (0, Staged (hash_content (take 9999 ''hello'')), fs1)"
    and f1: "staging_ok fs1" "\<forall>p. writable fs1 p" "\<forall>g. files fs1 (WORK g) = files two_files (WORK g)"
      "length (staging_lines fs1) \<le> 1 + 1"
    and e1: "staged_entries fs1 = filter (\<lambda>e. fst e \<noteq> ''a'') (staged_entries two_files) @
               [(''a'', hash_content (take 9999 ''hello''))]"
    using stage_step [OF name_ok_a_b(1) t(1) t(5) t(2) t(3)] by auto
  from f1(3) t(6) have c1: "files fs1 (WORK ''b'') = Some ''world''" by simp
  obtain fs2 where s2: "mygit_add ''b'' fs1 = Done (0, Staged (hash_content (take 9999 ''world'')), fs2)"
    and f2: "staging_ok fs2" "\<forall>p. writable fs2 p" "\<forall>g. files fs2 (WORK g) = files fs1 (WORK g)"
      "length (staging_lines fs2) \<le> 2 + 1"
    and e2: "staged_entries fs2 = filter (\<lambda>e. fst e \<noteq> ''b'') (staged_entries fs1) @
               [(''b'', hash_content (take 9999 ''world''))]"
    using stage_step [OF name_ok_a_b(2) f1(1) c1 f1(2), of 2] f1(4) by auto
  from f2(3) f1(3) t(5) have c2: "files fs2 (WORK ''a'') = Some ''hello''" by simp
  obtain fs3 where s3: "mygit_add ''a'' fs2 = Done (0, Staged (hash_content (take 9999 ''hello'')), fs3)"
    and e3: "staged_entries fs3 = filter (\<lambda>e. fst e \<noteq> ''a'') (staged_entries fs2) @
               [(''a'', hash_content (take 9999 ''hello''))]"
    using stage_step [OF name_ok_a_b(1) f2(1) c2 f2(2), of 3] f2(4) by auto
  show ?thesis
    by (simp add: s1 s2 s3 e1 e2 e3 t(4))
qed






section \<open>The entries of a commit\<close>

text \<open>
  Claim C4, as the code has it. With an entry staged, file names shorter than
  \<open>MAX_FILENAME\<close> bytes in the first ten entries (the rows of the \<open>Commit\<close>
  struct) and a commit log that can be written, \<open>mygit_commit\<close> returns 0 and
  records the first ten staged entries, in the order of the staging file, and all of
  them when at most ten are staged: its file names and hashes are those of the first
  ten entries, and its record is appended to the commit log.
\<close>

theorem commit_snapshot_first_ten:
  assumes "staged_entries fs \<noteq> []"
    and "\<forall>e\<in>set (take 10 (staged_entries fs)). length (fst e) < MAX_FILENAME"
    and "writable fs COMMITS_FILE"
  shows "\<exists>c fs'. mygit_commit msg now fs = Done (0, CommitSuccessful c, fs') \<and>
           file_count c = min 10 (length (staged_entries fs)) \<and>
           filenames c = map fst (take 10 (staged_entries fs)) \<and>
           file_hashes c = map snd (take 10 (staged_entries fs)) \<and>
           files fs' COMMITS_FILE =
             Some ((case files fs COMMITS_FILE of None \<Rightarrow> [] | Some log \<Rightarrow> log) @
                   commit_text c)"
proof -
  from assms(2) have short: "\<forall>e\<in>set (take 10 (staged_entries fs)). length (fst e) < 256"
    by simp
  from mygit_commit_succeeds [OF entries_counted [OF assms(1)] short assms(3)]
  obtain rep fs' where r: "mygit_commit msg now fs = Done (0, rep, fs')"
    by blast
  define c where "c = \<lparr>cid = get_next_commit_id fs,
                 message = take 255 (cstr msg),
                 timestamp = now,
                 branch = get_current_branch MAX_BRANCH_NAME fs,
                 parent_id = (if get_last_commit_id_on_branch (get_current_branch MAX_BRANCH_NAME fs) fs = 0 then - 1
                              else get_last_commit_id_on_branch (get_current_branch MAX_BRANCH_NAME fs) fs),
                 file_count = length (take 10 (staged_entries fs)),
                 filenames = map fst (take 10 (staged_entries fs)),
                 file_hashes = map snd (take 10 (staged_entries fs))\<rparr>"
  from mygit_commit_Done(1) [OF r] have rep: "rep = CommitSuccessful c"
    by (simp add: c_def)
  from mygit_commit_Done(2) [OF r] obtain fs1 where
    "save_commit c fs = Some fs1"
    "fs' = clear_staging_area (update_branch_ref (get_current_branch MAX_BRANCH_NAME fs)
             (get_next_commit_id fs) fs1)"
    unfolding c_def by blast
  note lg = commit_log_after [OF this]
  have "file_count c = min 10 (length (staged_entries fs))"
    "filenames c = map fst (take 10 (staged_entries fs))"
    "file_hashes c = map snd (take 10 (staged_entries fs))"
    by (simp_all add: c_def min_def)
  with r rep lg show ?thesis
    by (intro exI [of _ c] exI [of _ fs'] conjI) simp_all
qed

theorem commit_snapshot_first_ten_witness:
  "staged_entries eleven_staged =
     [(''a'', 1), (''b'', 2), (''c'', 3), (''d'', 4), (''e'', 5), (''f'', 6), (''g'', 7),
      (''h'', 8), (''i'', 9), (''j'', 10), (''k'', 11)] \<and>
   writable eleven_staged COMMITS_FILE \<and>
   (\<exists>c fs'. mygit_commit ''first'' ''2025-01-15 14:30:00'' eleven_staged =
        Done (0, CommitSuccessful c, fs') \<and>
      file_count c = 10 \<and>
      filenames c = [''a'', ''b'', ''c'', ''d'', ''e'', ''f'', ''g'', ''h'', ''i'', ''j''] \<and>
      file_hashes c = [1, 2, 3, 4, 5, 6, 7, 8, 9, 10] \<and>
      files fs' COMMITS_FILE = Some (''# MyGit Commit History'' @ [LF] @ commit_text c))"
proof -
  note e = eleven_staged_facts
  have h1: "staged_entries eleven_staged \<noteq> []"
    by (simp add: e(1))
  have h2: "\<forall>x\<in>set (take 10 (staged_entries eleven_staged)). length (fst x) < MAX_FILENAME"
    by (simp add: e(1))
  have lg: "files eleven_staged COMMITS_FILE = Some (''# MyGit Commit History'' @ [LF])"
    by (simp add: eleven_staged_def initialized_def mygit_init_files_def)
  have len: "min 10 (length (staged_entries eleven_staged)) = 10"
    by (simp add: e(1))
  from commit_snapshot_first_ten [OF h1 h2 e(3), of "''first''" "''2025-01-15 14:30:00''"]
  have "\<exists>c fs'. mygit_commit ''first'' ''2025-01-15 14:30:00'' eleven_staged =
        Done (0, CommitSuccessful c, fs') \<and>
      file_count c = 10 \<and>
      filenames c = [''a'', ''b'', ''c'', ''d'', ''e'', ''f'', ''g'', ''h'', ''i'', ''j''] \<and>
      file_hashes c = [1, 2, 3, 4, 5, 6, 7, 8, 9, 10] \<and>
      files fs' COMMITS_FILE = Some (''# MyGit Commit History'' @ [LF] @ commit_text c)"
    unfolding len by (simp add: e(1) lg)
  with e(1,3) show ?thesis
    by (intro conjI)
qed

text \<open>
  The claim as stated fails with eleven entries staged: the commit holds ten file
  names and the eleventh, \<open>k\<close>, is left out.
\<close>

theorem eleventh_entry_counterexample:
  "map fst (staged_entries eleven_staged) =
     [''a'', ''b'', ''c'', ''d'', ''e'', ''f'', ''g'', ''h'', ''i'', ''j'', ''k''] \<and>
   map_option filenames (committed (mygit_commit ''eleven'' ''2025-01-15 14:30:00'' eleven_staged)) =
     Some [''a'', ''b'', ''c'', ''d'', ''e'', ''f'', ''g'', ''h'', ''i'', ''j'']"
proof -
  note e = eleven_staged_facts
  have "\<forall>x\<in>set (take 10 (staged_entries eleven_staged)). length (fst x) < 256"
    by (simp add: e(1))
  from mygit_commit_succeeds [OF e(2) this e(3)] obtain rep fs' where
    r: "mygit_commit ''eleven'' ''2025-01-15 14:30:00'' eleven_staged = Done (0, rep, fs')"
    by blast
  from mygit_commit_Done(1) [OF r] show ?thesis
    by (simp add: r committed_def e(1))
qed


section \<open>The line buffer of \<open>remove_from_staging\<close>\<close>

text \<open>
  Claim C10 says that every store of \<open>remove_from_staging\<close> into its buffer of 100
  lines is within bounds, whatever the staging file holds. The code does not keep to
  it: the loop copies every line it keeps into the next row without testing the row
  index. With the header line and a hundred entries of other files to keep, staging
  \<open>b\<close> again makes the loop store into row 100, outside the array.
\<close>

theorem restage_overflows_line_buffer:
  "mygit_add ''b'' crowded = Fault"
proof -
  have c: "files crowded (WORK ''b'') = Some ''hello''"
    by (simp add: crowded_def initialized_def mygit_init_files_def)
  have b: "files crowded (OBJECTS_DIR (hash_content (take 9999 ''hello''))) \<noteq> None \<or>
           writable crowded (OBJECTS_DIR (hash_content (take 9999 ''hello'')))"
    by (simp add: crowded_def initialized_def)
  have "staged_line_matches ''b'' (staging_line ''b'' 210714636441)"
    using keeps_staging_line [OF name_ok_a_b(2)] by (simp add: matches_iff_not_keeps)
  then have st: "is_already_staged ''b'' crowded"
    by (simp add: is_already_staged_lines crowded_lines)
  have k0: "keeps_line ''b'' (''# MyGit Staging Area'' @ [LF])"
    by (simp add: keeps_line_def line_eval)
  have "show_nat i \<noteq> ''b''" for i
    using show_nat_digits [of "CHR ''b''" i] by (auto simp: isdigit_def)
  then have k: "keeps_line ''b'' (staging_line (show_nat i) 5381)" if "i < 100" for i
    using that by (intro keeps_other_line name_ok_show_nat) simp_all
  have "filter (keeps_line ''b'') (map (\<lambda>i. staging_line (show_nat i) 5381) [0..<100]) =
        map (\<lambda>i. staging_line (show_nat i) 5381) [0..<100]"
    using k by (simp add: filter_id_conv)
  then have "length (filter (keeps_line ''b'') (staging_lines crowded)) = 101"
    using k0 keeps_staging_line [OF name_ok_a_b(2), of 210714636441]
    by (simp add: crowded_lines)
  then have "100 < length (filter (keeps_line ''b'') (staging_lines crowded))"
    by simp
  from mygit_add_overflow [OF c b st this] show ?thesis .
qed


section \<open>A repository without a staging file\<close>

text \<open>
  Claim C8, as the code has it. When the staging file does not exist, the reads made by
  staging and committing find an empty set: \<open>count_staged_files\<close> returns 0,
  \<open>is_already_staged\<close> returns 0 and \<open>remove_from_staging\<close> returns without a
  change. \<open>read_staged_files\<close> does not: it returns -1, where it returns 0 and no
  entry for an empty staging file. \<open>mygit_commit\<close> stops at the count with
  "Nothing to commit!" and so never calls it. \<open>mygit_add\<close> of an existing file
  returns 0 and leaves what it leaves when the staging file exists and is empty, the
  staging file with the one line of that file, provided the staging file and the blob
  can be written.
\<close>

theorem missing_staging_file_reads_empty:
  assumes "files fs STAGING_FILE = None"
  shows "count_staged_files fs = 0 \<and> \<not> is_already_staged f fs \<and>
         remove_from_staging f fs = Done fs \<and>
         read_staged_files fs = Done None \<and>
         read_staged_files (fs\<lparr>files := (files fs)(STAGING_FILE \<mapsto> [])\<rparr>) = Done (Some []) \<and>
         mygit_commit msg now fs = Done (- 1, NothingToCommit, fs) \<and>
         (files fs (WORK f) = Some c \<and> writable fs STAGING_FILE \<and>
          (files fs (OBJECTS_DIR (hash_content (take 9999 c))) \<noteq> None \<or>
           writable fs (OBJECTS_DIR (hash_content (take 9999 c)))) \<longrightarrow>
          (\<exists>fs'. mygit_add f fs = Done (0, Staged (hash_content (take 9999 c)), fs') \<and>
                 mygit_add f (fs\<lparr>files := (files fs)(STAGING_FILE \<mapsto> [])\<rparr>) =
                   Done (0, Staged (hash_content (take 9999 c)), fs') \<and>
                 files fs' STAGING_FILE = Some (staging_line f (hash_content (take 9999 c)))))"
proof -
  let ?e = "fs\<lparr>files := (files fs)(STAGING_FILE \<mapsto> [])\<rparr>"
  from assms have ns: "\<not> is_already_staged f fs"
    by (simp add: is_already_staged_def)
  have "\<exists>fs'. mygit_add f fs = Done (0, Staged (hash_content (take 9999 c)), fs') \<and>
          mygit_add f ?e = Done (0, Staged (hash_content (take 9999 c)), fs') \<and>
          files fs' STAGING_FILE = Some (staging_line f (hash_content (take 9999 c)))"
    if c: "files fs (WORK f) = Some c" and w: "writable fs STAGING_FILE"
      and b: "files fs (OBJECTS_DIR (hash_content (take 9999 c))) \<noteq> None \<or>
           writable fs (OBJECTS_DIR (hash_content (take 9999 c)))"
  proof -
    define h where "h = hash_content (take 9999 c)"
    define fs' where "fs' = (case save_blob (take 9999 c) h fs of
        Some fs1 \<Rightarrow> fs1\<lparr>files := (files fs1)(STAGING_FILE \<mapsto> staging_line f h),
                        written := STAGING_FILE # written fs1\<rparr>)"
    from b have sb: "save_blob (take 9999 c) h fs \<noteq> None"
      by (cases "files fs (OBJECTS_DIR h)")
         (simp_all add: save_blob_def file_exists_def write_file_def fopen_w_def h_def)
    have 1: "mygit_add f fs = Done (0, Staged h, fs')"
      using c w assms sb
      by (auto simp: mygit_add_def file_exists_def read_file_def h_def [symmetric] fs'_def
          save_blob_def write_file_def fopen_w_def fopen_a_def is_already_staged_def
          staging_line_def split: if_splits)
    have 2: "mygit_add f ?e = Done (0, Staged h, fs')"
      using c w assms sb
      by (auto simp: mygit_add_def file_exists_def read_file_def h_def [symmetric] fs'_def
          save_blob_def write_file_def fopen_w_def fopen_a_def is_already_staged_def
          staging_line_def fun_upd_twist split: if_splits)
    have 3: "files fs' STAGING_FILE = Some (staging_line f h)"
      using sb by (auto simp: fs'_def)
    from 1 2 3 show ?thesis
      unfolding h_def by (intro exI [of _ fs'] conjI)
  qed
  with assms ns show ?thesis
    by (simp add: count_staged_files_def read_staged_files_def
        remove_from_staging_def mygit_commit_def)
qed

theorem missing_staging_file_reads_empty_witness:
  "files no_staging STAGING_FILE = None \<and>
   count_staged_files no_staging = 0 \<and> \<not> is_already_staged ''a'' no_staging \<and>
   remove_from_staging ''a'' no_staging = Done no_staging \<and>
   read_staged_files no_staging = Done None \<and>
   mygit_commit ''first'' ''2025-01-15 14:30:00'' no_staging = Done (- 1, NothingToCommit, no_staging) \<and>
   files no_staging (WORK ''a'') = Some ''hello'' \<and> writable no_staging STAGING_FILE \<and>
   writable no_staging (OBJECTS_DIR (hash_content (take 9999 ''hello''))) \<and>
   (\<exists>fs'. mygit_add ''a'' no_staging = Done (0, Staged (hash_content (take 9999 ''hello'')), fs') \<and>
          mygit_add ''a'' (no_staging\<lparr>files := (files no_staging)(STAGING_FILE \<mapsto> [])\<rparr>) =
            Done (0, Staged (hash_content (take 9999 ''hello'')), fs') \<and>
          files fs' STAGING_FILE = Some (staging_line ''a'' (hash_content (take 9999 ''hello''))))"
proof -
  have a: "files no_staging STAGING_FILE = None"
    by (simp add: no_staging_def initialized_def mygit_init_files_def)
  have b: "files no_staging (WORK ''a'') = Some ''hello''" "writable no_staging STAGING_FILE"
    "writable no_staging (OBJECTS_DIR (hash_content (take 9999 ''hello'')))"
    by (simp_all add: no_staging_def initialized_def mygit_init_files_def)
  note T = missing_staging_file_reads_empty [OF a, of "''a''" "''first''" "''2025-01-15 14:30:00''" "''hello''"]
  from T a b show ?thesis by blast
qed

text \<open>
  The claim as stated fails for \<open>read_staged_files\<close>: without a staging file it
  fails with -1, with an empty one it returns 0 and no entry.
\<close>

theorem missing_file_read_fails_counterexample:
  "read_staged_files no_staging = Done None \<and>
   read_staged_files (no_staging\<lparr>files := (files no_staging)(STAGING_FILE \<mapsto> [])\<rparr>) =
     Done (Some [])"
  by (simp add: read_staged_files_def no_staging_def initialized_def mygit_init_files_def)


section \<open>What of a file is staged\<close>

text \<open>
  Claim C9. \<open>mygit_add\<close> sees of a file only the C string in its first 9999 bytes.
  Two contents with the same such prefix have the same fingerprint, and staging the
  file with either of them gives the same return value, the same report and the same
  repository, the working file itself apart: the same blob store and the same staging
  file. When staging returns 0, the fingerprint reported is that of the prefix, and a
  blob written for it holds exactly the prefix.
\<close>

theorem add_sees_c_string_prefix:
  assumes "cstr (take 9999 c1) = cstr (take 9999 c2)"
  shows "hash_content (take 9999 c1) = hash_content (take 9999 c2) \<and>
         mygit_add f (fs\<lparr>files := (files fs)(WORK f \<mapsto> c2)\<rparr>) =
           map_exec (\<lambda>(rc, rep, s). (rc, rep, s\<lparr>files := (files s)(WORK f \<mapsto> c2)\<rparr>))
             (mygit_add f (fs\<lparr>files := (files fs)(WORK f \<mapsto> c1)\<rparr>)) \<and>
         (\<forall>rep fs'. mygit_add f (fs\<lparr>files := (files fs)(WORK f \<mapsto> c1)\<rparr>) = Done (0, rep, fs') \<longrightarrow>
            rep = Staged (hash_content (cstr (take 9999 c1))) \<and>
            (files fs (OBJECTS_DIR (hash_content (cstr (take 9999 c1)))) = None \<longrightarrow>
             files fs' (OBJECTS_DIR (hash_content (cstr (take 9999 c1)))) =
               Some (cstr (take 9999 c1))))"
proof -
  let ?u = "\<lambda>s. s\<lparr>files := (files s)(WORK f \<mapsto> c2)\<rparr>"
  let ?A = "fs\<lparr>files := (files fs)(WORK f \<mapsto> c1)\<rparr>"
  have h: "hash_content (take 9999 c1) = hash_content (take 9999 c2)"
    using assms hash_content_cstr [of "take 9999 c1"] hash_content_cstr [of "take 9999 c2"]
    by simp
  have B: "fs\<lparr>files := (files fs)(WORK f \<mapsto> c2)\<rparr> = ?u ?A"
    by simp
  define hh where "hh = hash_content (take 9999 c2)"
  have sb: "save_blob (take 9999 c2) hh (?u ?A) = map_option ?u (save_blob (take 9999 c1) hh ?A)"
    by (rule save_blob_upd_work) (rule assms)
  have "mygit_add f (?u ?A) =
        map_exec (\<lambda>(rc, rep, s). (rc, rep, ?u s)) (mygit_add f ?A)"
  proof (cases "save_blob (take 9999 c1) hh ?A")
    case None
    with sb show ?thesis
      by (simp add: mygit_add_def file_exists_def read_file_def h hh_def [symmetric])
  next
    case (Some fs1)
    with sb have sb2: "save_blob (take 9999 c2) hh (?u ?A) = Some (?u fs1)" by simp
    show ?thesis
    proof (cases "if is_already_staged f fs1 then remove_from_staging f fs1 else Done fs1")
      case Fault
      then have "(if is_already_staged f (?u fs1) then remove_from_staging f (?u fs1)
                  else Done (?u fs1)) = Fault"
        by (auto simp: is_already_staged_upd_work remove_from_staging_upd_work split: if_splits)
      with Fault Some sb2 show ?thesis
        by (simp add: mygit_add_def file_exists_def read_file_def h hh_def [symmetric])
    next
      case (Done fs2)
      then have d2: "(if is_already_staged f (?u fs1) then remove_from_staging f (?u fs1)
                  else Done (?u fs1)) = Done (?u fs2)"
        by (auto simp: is_already_staged_upd_work remove_from_staging_upd_work split: if_splits)
      show ?thesis
      proof (cases "fopen_a STAGING_FILE (f @ ''|'' @ show_nat (unat hh) @ [LF]) fs2")
        case None
        with fopen_a_upd_work [of "f @ ''|'' @ show_nat (unat hh) @ [LF]" fs2 f c2]
        have "fopen_a STAGING_FILE (f @ ''|'' @ show_nat (unat hh) @ [LF]) (?u fs2) = None"
          by simp
        with None Done d2 Some sb2 show ?thesis
          by (simp add: mygit_add_def file_exists_def read_file_def h hh_def [symmetric])
      next
        case ap: (Some fs3)
        with fopen_a_upd_work [of "f @ ''|'' @ show_nat (unat hh) @ [LF]" fs2 f c2]
        have "fopen_a STAGING_FILE (f @ ''|'' @ show_nat (unat hh) @ [LF]) (?u fs2) = Some (?u fs3)"
          by simp
        with ap Done d2 Some sb2 show ?thesis
          by (simp add: mygit_add_def file_exists_def read_file_def h hh_def [symmetric])
      qed
    qed
  qed
  then have eq: "mygit_add f (fs\<lparr>files := (files fs)(WORK f \<mapsto> c2)\<rparr>) =
        map_exec (\<lambda>(rc, rep, s). (rc, rep, ?u s)) (mygit_add f ?A)"
    by simp
  have blob: "\<forall>rep fs'. mygit_add f ?A = Done (0, rep, fs') \<longrightarrow>
            rep = Staged (hash_content (cstr (take 9999 c1))) \<and>
            (files fs (OBJECTS_DIR (hash_content (cstr (take 9999 c1)))) = None \<longrightarrow>
             files fs' (OBJECTS_DIR (hash_content (cstr (take 9999 c1)))) =
               Some (cstr (take 9999 c1)))"
  proof (intro allI impI)
    fix rep fs'
    assume r: "mygit_add f ?A = Done (0, rep, fs')"
    have c: "files ?A (WORK f) = Some c1" by simp
    from mygit_add_blob [OF c r]
    show "rep = Staged (hash_content (cstr (take 9999 c1))) \<and>
          (files fs (OBJECTS_DIR (hash_content (cstr (take 9999 c1)))) = None \<longrightarrow>
           files fs' (OBJECTS_DIR (hash_content (cstr (take 9999 c1)))) =
             Some (cstr (take 9999 c1)))"
      by simp
  qed
  from h eq blob show ?thesis
    by (intro conjI)
qed

theorem add_sees_c_string_prefix_witness:
  "cstr (take 9999 (''ab'' @ [NUL] @ ''cd'')) = cstr (take 9999 (''ab'' @ [NUL] @ ''xy'')) \<and>
   hash_content (take 9999 (''ab'' @ [NUL] @ ''cd'')) = hash_content (take 9999 (''ab'' @ [NUL] @ ''xy'')) \<and>
   mygit_add ''a'' (two_files\<lparr>files := (files two_files)(WORK ''a'' \<mapsto> ''ab'' @ [NUL] @ ''xy'')\<rparr>) =
     map_exec (\<lambda>(rc, rep, s). (rc, rep, s\<lparr>files := (files s)(WORK ''a'' \<mapsto> ''ab'' @ [NUL] @ ''xy'')\<rparr>))
       (mygit_add ''a'' (two_files\<lparr>files := (files two_files)(WORK ''a'' \<mapsto> ''ab'' @ [NUL] @ ''cd'')\<rparr>)) \<and>
   (\<exists>fs'. mygit_add ''a'' (two_files\<lparr>files := (files two_files)(WORK ''a'' \<mapsto> ''ab'' @ [NUL] @ ''cd'')\<rparr>) =
            Done (0, Staged (hash_content ''ab''), fs') \<and>
          files two_files (OBJECTS_DIR (hash_content ''ab'')) = None \<and>
          files fs' (OBJECTS_DIR (hash_content ''ab'')) = Some ''ab'')"
proof -
  let ?A = "two_files\<lparr>files := (files two_files)(WORK ''a'' \<mapsto> ''ab'' @ [NUL] @ ''cd'')\<rparr>"
  have h: "cstr (take 9999 (''ab'' @ [NUL] @ ''cd'')) = cstr (take 9999 (''ab'' @ [NUL] @ ''xy''))"
    by (simp add: cstr_def)
  have cs: "cstr (take 9999 (''ab'' @ [NUL] @ ''cd'')) = ''ab''"
    by (simp add: cstr_def)
  note t = two_files_facts
  have A: "staging_ok ?A" "files ?A (WORK ''a'') = Some (''ab'' @ [NUL] @ ''cd'')"
    "\<forall>p. writable ?A p" "length (staging_lines ?A) \<le> 1"
    using t by (simp_all add: staging_ok_def staging_lines_def)
  from stage_step [OF name_ok_a_b(1) A] obtain fs' where
    r: "mygit_add ''a'' ?A = Done (0, Staged (hash_content (take 9999 (''ab'' @ [NUL] @ ''cd''))), fs')"
    by auto
  have n: "files two_files (OBJECTS_DIR (hash_content ''ab'')) = None"
    by (simp add: two_files_def initialized_def mygit_init_files_def)
  note T = add_sees_c_string_prefix [OF h, of "''a''" two_files]
  from T have T1: "hash_content (take 9999 (''ab'' @ [NUL] @ ''cd'')) =
      hash_content (take 9999 (''ab'' @ [NUL] @ ''xy''))"
    by (rule conjunct1)
  from T have T2: "mygit_add ''a'' (two_files\<lparr>files := (files two_files)(WORK ''a'' \<mapsto> ''ab'' @ [NUL] @ ''xy'')\<rparr>) =
     map_exec (\<lambda>(rc, rep, s). (rc, rep, s\<lparr>files := (files s)(WORK ''a'' \<mapsto> ''ab'' @ [NUL] @ ''xy'')\<rparr>))
       (mygit_add ''a'' ?A)"
    by (rule conjunct2 [THEN conjunct1])
  note T3 = T [THEN conjunct2, THEN conjunct2, rule_format, OF r]
  from T3 [THEN conjunct2] n have b: "files fs' (OBJECTS_DIR (hash_content ''ab'')) = Some ''ab''"
    by (simp only: cs)
  from T3 [THEN conjunct1] r have r': "mygit_add ''a'' ?A = Done (0, Staged (hash_content ''ab''), fs')"
    by (simp only: cs)
  from r' n b have "\<exists>fs'. mygit_add ''a'' ?A = Done (0, Staged (hash_content ''ab''), fs') \<and>
          files two_files (OBJECTS_DIR (hash_content ''ab'')) = None \<and>
          files fs' (OBJECTS_DIR (hash_content ''ab'')) = Some ''ab''"
    by blast
  with h T1 T2 show ?thesis
    by (simp only: simp_thms)
qed


section \<open>Reading a blob back\<close>

text \<open>
  Claim C6, as the code has it. For a content without NUL bytes of at most 9999 bytes,
  with no blob, or the blob of that very content, under its fingerprint: after
  \<open>save_blob\<close> has returned 0, \<open>read_file\<close> with a buffer of \<open>MAX_CONTENT\<close> bytes
  returns the content, byte for byte, and it still does after any later \<open>mygit_add\<close>
  or \<open>mygit_commit\<close>.
\<close>

theorem blob_round_trip:
  assumes "NUL \<notin> set c" and "length c \<le> 9999"
    and "files fs (OBJECTS_DIR (hash_content c)) = None \<or>
         files fs (OBJECTS_DIR (hash_content c)) = Some c"
    and "save_blob c (hash_content c) fs = Some fs1"
  shows "read_file (OBJECTS_DIR (hash_content c)) MAX_CONTENT fs1 = Some c \<and>
         (\<forall>g rc rep fs2. mygit_add g fs1 = Done (rc, rep, fs2) \<longrightarrow>
            read_file (OBJECTS_DIR (hash_content c)) MAX_CONTENT fs2 = Some c) \<and>
         (\<forall>msg now rc rep fs2. mygit_commit msg now fs1 = Done (rc, rep, fs2) \<longrightarrow>
            read_file (OBJECTS_DIR (hash_content c)) MAX_CONTENT fs2 = Some c)"
proof -
  from assms(1) have cs: "cstr c = c" by (rule cstr_id)
  from assms(3,4) have b: "files fs1 (OBJECTS_DIR (hash_content c)) = Some c"
    by (auto simp: save_blob_def file_exists_def write_file_def fopen_w_def cs split: if_splits)
  have rd: "read_file (OBJECTS_DIR (hash_content c)) MAX_CONTENT s = Some c"
    if "files s (OBJECTS_DIR (hash_content c)) = Some c" for s
    using that assms(2) by (simp add: read_file_def)
  have "read_file (OBJECTS_DIR (hash_content c)) MAX_CONTENT fs2 = Some c"
    if "mygit_add g fs1 = Done (rc, rep, fs2)" for g rc rep fs2
    using mygit_add_frame(3) [OF that b] by (rule rd)
  moreover have "read_file (OBJECTS_DIR (hash_content c)) MAX_CONTENT fs2 = Some c"
    if "mygit_commit msg now fs1 = Done (rc, rep, fs2)" for msg now rc rep fs2
    using mygit_commit_blobs [OF that, of "hash_content c"] b by (intro rd) simp
  ultimately show ?thesis
    using rd [OF b] by blast
qed

theorem blob_round_trip_witness:
  "NUL \<notin> set ''hello'' \<and> length ''hello'' \<le> 9999 \<and>
   files two_files (OBJECTS_DIR (hash_content ''hello'')) = None \<and>
   (\<exists>fs1. save_blob ''hello'' (hash_content ''hello'') two_files = Some fs1 \<and>
      read_file (OBJECTS_DIR (hash_content ''hello'')) MAX_CONTENT fs1 = Some ''hello'' \<and>
      (\<exists>rep fs2. mygit_add ''b'' fs1 = Done (0, rep, fs2) \<and>
         read_file (OBJECTS_DIR (hash_content ''hello'')) MAX_CONTENT fs2 = Some ''hello'') \<and>
      (\<exists>rc rep fs3. mygit_commit ''first'' ''2025-01-15 14:30:00'' fs1 = Done (rc, rep, fs3) \<and>
         read_file (OBJECTS_DIR (hash_content ''hello'')) MAX_CONTENT fs3 = Some ''hello''))"
proof -
  note t = two_files_facts
  define fs1 where "fs1 = two_files\<lparr>files := (files two_files)(OBJECTS_DIR (hash_content ''hello'') \<mapsto> ''hello''),
      written := OBJECTS_DIR (hash_content ''hello'') # written two_files\<rparr>"
  have h1: "NUL \<notin> set ''hello''" and h2: "length ''hello'' \<le> 9999" by simp_all
  have n: "files two_files (OBJECTS_DIR (hash_content ''hello'')) = None"
    by (simp add: two_files_def initialized_def mygit_init_files_def)
  then have h3: "files two_files (OBJECTS_DIR (hash_content ''hello'')) = None \<or>
      files two_files (OBJECTS_DIR (hash_content ''hello'')) = Some ''hello''"
    by simp
  have sb: "save_blob ''hello'' (hash_content ''hello'') two_files = Some fs1"
    using n t(2) by (simp add: save_blob_def file_exists_def write_file_def fopen_w_def cstr_def fs1_def)
  note T = blob_round_trip [OF h1 h2 h3 sb]
  have f1: "staging_ok fs1" "files fs1 (WORK ''b'') = Some ''world''" "\<forall>p. writable fs1 p"
    "length (staging_lines fs1) \<le> 1" "count_staged_files fs1 = 0"
    using t by (simp_all add: fs1_def staging_ok_def staging_lines_def count_staged_files_def
        two_files_def initialized_def mygit_init_files_def line_eval)
  from stage_step [OF name_ok_a_b(2) f1(1,2,3,4)] obtain rep fs2 where
    r2: "mygit_add ''b'' fs1 = Done (0, rep, fs2)"
    by auto
  from T [THEN conjunct2, THEN conjunct1, rule_format, OF r2] r2
  have a: "\<exists>rep fs2. mygit_add ''b'' fs1 = Done (0, rep, fs2) \<and>
         read_file (OBJECTS_DIR (hash_content ''hello'')) MAX_CONTENT fs2 = Some ''hello''"
    by blast
  have r3: "mygit_commit ''first'' ''2025-01-15 14:30:00'' fs1 = Done (- 1, NothingToCommit, fs1)"
    using f1(5) by (simp add: mygit_commit_def)
  from T [THEN conjunct2, THEN conjunct2, rule_format, OF r3] r3
  have b: "\<exists>rc rep fs3. mygit_commit ''first'' ''2025-01-15 14:30:00'' fs1 = Done (rc, rep, fs3) \<and>
         read_file (OBJECTS_DIR (hash_content ''hello'')) MAX_CONTENT fs3 = Some ''hello''"
    by blast
  from sb T [THEN conjunct1] a b
  have "\<exists>fs1. save_blob ''hello'' (hash_content ''hello'') two_files = Some fs1 \<and>
      read_file (OBJECTS_DIR (hash_content ''hello'')) MAX_CONTENT fs1 = Some ''hello'' \<and>
      (\<exists>rep fs2. mygit_add ''b'' fs1 = Done (0, rep, fs2) \<and>
         read_file (OBJECTS_DIR (hash_content ''hello'')) MAX_CONTENT fs2 = Some ''hello'') \<and>
      (\<exists>rc rep fs3. mygit_commit ''first'' ''2025-01-15 14:30:00'' fs1 = Done (rc, rep, fs3) \<and>
         read_file (OBJECTS_DIR (hash_content ''hello'')) MAX_CONTENT fs3 = Some ''hello'')"
    by (intro exI [of _ fs1] conjI)
  with h1 h2 n show ?thesis
    by (intro conjI)
qed

text \<open>
  The claim as stated fails for content with a NUL byte: \<open>save_blob\<close> writes the C
  string, so the three bytes \<open>a\<close>, NUL, \<open>b\<close> are read back as the one byte \<open>a\<close>.
\<close>

theorem blob_with_NUL_counterexample:
  "Option.bind (save_blob [CHR ''a'', NUL, CHR ''b''] (hash_content [CHR ''a'', NUL, CHR ''b'']) initialized)
     (read_file (OBJECTS_DIR (hash_content [CHR ''a'', NUL, CHR ''b''])) MAX_CONTENT) = Some ''a''"
  by (simp add: save_blob_def file_exists_def write_file_def fopen_w_def read_file_def cstr_def
      initialized_def mygit_init_files_def)


section \<open>Commit ids and parents on a fresh branch\<close>





end
